theory Spec2Isabelle
  imports Complex_Main "HOL-Library.Word"
begin

text \<open>
  A model of the text buffer, the screen and the view of Terminal.js: the classes
  \<open>Buffer\<close>, \<open>Screen\<close> and \<open>View\<close> of the module \<open>Terminal\<close>, in the version whose
  buffer records a style for every character and caps the length of a row. Every
  function of the model follows the statements of the method it is named after; the
  canvas, the WebGL state and the render loops are left out. The theorems are about the
  bookkeeping of the buffer (write index, line starts, width, version, growth), the
  cursor and the tile map of the screen, and the scroll offsets of the view.
\<close>

section \<open>JavaScript numbers\<close>

text \<open>
  The program is TypeScript. Its numbers are IEEE doubles; the ones the buffer, the
  screen and the view compute with are integers (counters, indices, character codes),
  the view's scroll offsets (which may be fractional) and \<open>NaN\<close>, which arises when a
  typed array is read out of range (\<open>undefined\<close>) and the result enters arithmetic.
  A number is therefore a value of the carrier \<open>'a\<close> (\<open>int\<close> for buffer and screen,
  \<open>real\<close> for the view) or \<open>NaN\<close>. Rounding of doubles beyond \<open>2^53\<close> and the
  infinities are outside the model; allocation of a typed array always succeeds.
\<close>

datatype 'a number = Num 'a | NaN

fun Math_max :: "'a::linorder number \<Rightarrow> 'a number \<Rightarrow> 'a number" where
  "Math_max (Num a) (Num b) = Num (max a b)"
| "Math_max _ _ = NaN"

fun Math_min :: "'a::linorder number \<Rightarrow> 'a number \<Rightarrow> 'a number" where
  "Math_min (Num a) (Num b) = Num (min a b)"
| "Math_min _ _ = NaN"

fun num_add :: "'a::plus number \<Rightarrow> 'a number \<Rightarrow> 'a number" where
  "num_add (Num a) (Num b) = Num (a + b)"
| "num_add _ _ = NaN"

fun num_sub :: "'a::minus number \<Rightarrow> 'a number \<Rightarrow> 'a number" where
  "num_sub (Num a) (Num b) = Num (a - b)"
| "num_sub _ _ = NaN"

fun num_mul :: "'a::times number \<Rightarrow> 'a number \<Rightarrow> 'a number" where
  "num_mul (Num a) (Num b) = Num (a * b)"
| "num_mul _ _ = NaN"

text \<open>Comparisons with \<open>NaN\<close> are false.\<close>

fun num_lt :: "'a::ord number \<Rightarrow> 'a number \<Rightarrow> bool" where
  "num_lt (Num a) (Num b) = (a < b)"
| "num_lt _ _ = False"

fun num_gt :: "'a::ord number \<Rightarrow> 'a number \<Rightarrow> bool" where
  "num_gt (Num a) (Num b) = (b < a)"
| "num_gt _ _ = False"

fun num_ge :: "'a::ord number \<Rightarrow> 'a number \<Rightarrow> bool" where
  "num_ge (Num a) (Num b) = (b \<le> a)"
| "num_ge _ _ = False"

text \<open>\<open>function clamp(value, min, max) { return Math.max(min, Math.min(max, value)); }\<close>\<close>

definition clamp :: "'a::linorder number \<Rightarrow> 'a number \<Rightarrow> 'a number \<Rightarrow> 'a number" where
  "clamp v mn mx = Math_max mn (Math_min mx v)"

text \<open>
  \<open>v | 0\<close>: the conversion to a signed 32-bit integer, with the wrap-around written out;
  \<open>NaN | 0\<close> is \<open>0\<close>.
\<close>

definition toInt32 :: "int number \<Rightarrow> int" where
  "toInt32 v = (case v of NaN \<Rightarrow> 0 | Num n \<Rightarrow> (n + 2 ^ 31) mod 2 ^ 32 - 2 ^ 31)"

text \<open>
  \<open>a % b\<close> (the remainder has the sign of the dividend, and is \<open>NaN\<close> for \<open>b = 0\<close>) and
  \<open>(a / b) | 0\<close> (the quotient truncated towards zero; \<open>a / 0\<close> is an infinity or
  \<open>NaN\<close>, and both become \<open>0\<close>).
\<close>

fun js_rem :: "int number \<Rightarrow> int number \<Rightarrow> int number" where
  "js_rem (Num a) (Num b) = (if b = 0 then NaN else Num (sgn a * (\<bar>a\<bar> mod \<bar>b\<bar>)))"
| "js_rem _ _ = NaN"

fun js_div_toInt32 :: "int number \<Rightarrow> int number \<Rightarrow> int" where
  "js_div_toInt32 (Num a) (Num b) =
     (if b = 0 then 0 else toInt32 (Num (sgn a * sgn b * (\<bar>a\<bar> div \<bar>b\<bar>))))"
| "js_div_toInt32 _ _ = 0"

text \<open>\<open>v >> 8\<close>: the arithmetic shift of \<open>v | 0\<close>.\<close>

definition shr8 :: "int number \<Rightarrow> int" where
  "shr8 v = toInt32 v div 2 ^ 8"

text \<open>
  The values the counter of \<open>for (var k = 0; k < l; k++)\<close> takes when the body does not
  change \<open>l\<close>: none when \<open>l\<close> is \<open>NaN\<close>.
\<close>

definition loop_range :: "int number \<Rightarrow> int list" where
  "loop_range l = (case l of NaN \<Rightarrow> [] | Num n \<Rightarrow> [0..n - 1])"

section \<open>Typed arrays\<close>

text \<open>
  A \<open>Uint8Array\<close>, \<open>Uint16Array\<close> or \<open>Uint32Array\<close> is a fixed length and its cells,
  words of 8, 16 or 32 bits. A read at an index that is not an integer within range gives
  \<open>undefined\<close>, which every use in the program turns into \<open>NaN\<close>; a write there is
  ignored. A written number is reduced modulo the cell width, \<open>NaN\<close> is stored as \<open>0\<close>.
\<close>

record 'a typed_array =
  alen :: nat
  cell :: "nat \<Rightarrow> 'a"

definition new_array :: "nat \<Rightarrow> ('a::zero) typed_array" where
  "new_array n = \<lparr>alen = n, cell = (\<lambda>_. 0)\<rparr>"

definition ta_get :: "('w::len) word typed_array \<Rightarrow> int number \<Rightarrow> int number" where
  "ta_get a k =
     (case k of
        NaN \<Rightarrow> NaN
      | Num j \<Rightarrow> if 0 \<le> j \<and> nat j < alen a then Num (uint (cell a (nat j))) else NaN)"

definition to_cell :: "int number \<Rightarrow> ('w::len) word" where
  "to_cell v = (case v of NaN \<Rightarrow> 0 | Num n \<Rightarrow> word_of_int n)"

definition ta_set :: "('w::len) word typed_array \<Rightarrow> int number \<Rightarrow> int number
    \<Rightarrow> 'w word typed_array" where
  "ta_set a k v =
     (case k of
        NaN \<Rightarrow> a
      | Num j \<Rightarrow> if 0 \<le> j \<and> nat j < alen a
                 then a\<lparr>cell := (cell a)(nat j := to_cell v)\<rparr> else a)"

text \<open>
  \<open>var t = new T(a.length * 2); t.set(a, 0);\<close>: the array of twice the length that
  starts with the cells of \<open>a\<close> and is zero after them.
\<close>

definition ta_grow :: "('a::zero) typed_array \<Rightarrow> 'a typed_array" where
  "ta_grow a = \<lparr>alen = alen a * 2, cell = (\<lambda>j. if j < alen a then cell a j else 0)\<rparr>"

section \<open>Buffer\<close>

text \<open>
  The class \<open>Terminal.Buffer\<close>. The fields keep their names behind the prefix \<open>b_\<close>:
  \<open>b_h\<close> is \<open>h\<close> (the number of rows), \<open>b_i\<close> is \<open>i\<close> (the write index), \<open>b_starts\<close>
  the start position of each line, \<open>b_buffer\<close>, \<open>b_styles\<close> and \<open>b_colors\<close> the
  character codes, styles and colours.
\<close>

datatype FontStyle = Normal | Bold | Italic | BoldItalic

fun FontStyle_code :: "FontStyle \<Rightarrow> int" where
  "FontStyle_code Normal = 0"
| "FontStyle_code Bold = 1"
| "FontStyle_code Italic = 2"
| "FontStyle_code BoldItalic = 3"

definition CharacterCode_NewLine :: int where
  "CharacterCode_NewLine = 10"

record Buffer =
  b_starts :: "32 word typed_array"
  b_buffer :: "8 word typed_array"
  b_styles :: "8 word typed_array"
  b_colors :: "16 word typed_array"
  b_h :: int
  b_columns :: int
  b_i :: int
  b_color :: int
  b_style :: FontStyle
  b_previousMaxLineWidth :: "int number"
  b_version :: int

text \<open>
  \<open>constructor(columns = 1024 * 1024)\<close>: \<open>None\<close> is the omitted argument. The
  constructor sets the colour and the style, calls \<open>clear()\<close>, then allocates.
\<close>

definition Buffer_new :: "int option \<Rightarrow> Buffer" where
  "Buffer_new columns =
     \<lparr>b_starts = new_array 32,
      b_buffer = new_array (1024 * 1024),
      b_styles = new_array (1024 * 1024),
      b_colors = new_array (1024 * 1024),
      b_h = 1,
      b_columns = toInt32 (Num (case columns of None \<Rightarrow> 1024 * 1024 | Some c \<Rightarrow> c)),
      b_i = 0,
      b_color = 0xFFFF,
      b_style = Normal,
      b_previousMaxLineWidth = Num 0,
      b_version = 0\<rparr>"

text \<open>\<open>this.i - this.starts[this.h - 1]\<close>: the length of the row being written.\<close>

definition rowLength :: "Buffer \<Rightarrow> int number" where
  "rowLength b = num_sub (Num (b_i b)) (ta_get (b_starts b) (Num (b_h b - 1)))"

text \<open>The getter \<open>w\<close>.\<close>

definition Buffer_w :: "Buffer \<Rightarrow> int number" where
  "Buffer_w b = Math_max (b_previousMaxLineWidth b) (rowLength b)"

definition Buffer_clear :: "Buffer \<Rightarrow> Buffer" where
  "Buffer_clear b = b\<lparr>b_h := 1, b_i := 0, b_version := 0, b_previousMaxLineWidth := Num 0\<rparr>"

definition Buffer_newLine :: "Buffer \<Rightarrow> Buffer" where
  "Buffer_newLine b =
     (let b1 = (if int (alen (b_starts b)) = b_h b
                then b\<lparr>b_starts := ta_grow (b_starts b)\<rparr> else b);
          b2 = b1\<lparr>b_previousMaxLineWidth :=
                      Math_max (b_previousMaxLineWidth b1) (rowLength b1)\<rparr>;
          b3 = b2\<lparr>b_starts := ta_set (b_starts b2) (Num (b_h b2)) (Num (b_i b2)),
                  b_h := b_h b2 + 1\<rparr>
      in b3\<lparr>b_version := b_version b3 + 1\<rparr>)"

definition Buffer_writeCharCode :: "Buffer \<Rightarrow> int number \<Rightarrow> Buffer" where
  "Buffer_writeCharCode b x =
     (let b1 = (if num_ge (rowLength b) (Num (b_columns b)) then Buffer_newLine b else b);
          b2 = (if int (alen (b_buffer b1)) = b_i b1
                then b1\<lparr>b_buffer := ta_grow (b_buffer b1),
                        b_styles := ta_grow (b_styles b1),
                        b_colors := ta_grow (b_colors b1)\<rparr>
                else b1);
          b3 = b2\<lparr>b_styles := ta_set (b_styles b2) (Num (b_i b2))
                                (Num (FontStyle_code (b_style b2)))\<rparr>;
          b4 = b3\<lparr>b_colors := ta_set (b_colors b3) (Num (b_i b3)) (Num (b_color b3))\<rparr>;
          b5 = b4\<lparr>b_buffer := ta_set (b_buffer b4) (Num (b_i b4)) x\<rparr>;
          b6 = b5\<lparr>b_i := b_i b5 + 1\<rparr>
      in b6\<lparr>b_version := b_version b6 + 1\<rparr>)"

text \<open>
  \<open>writeString(s)\<close>: the string is the list of its character codes
  (\<open>s.charCodeAt(i)\<close>).
\<close>

fun Buffer_writeString :: "Buffer \<Rightarrow> int list \<Rightarrow> Buffer" where
  "Buffer_writeString b [] = b"
| "Buffer_writeString b (c # s) =
     Buffer_writeString
       (if c = CharacterCode_NewLine then Buffer_newLine b
        else Buffer_writeCharCode b (Num c)) s"

text \<open>
  The calls a client makes on a buffer: the three write operations, \<open>clear()\<close>, and the
  assignments to the public fields \<open>color\<close> and \<open>style\<close>.
\<close>

datatype Buffer_op =
    WriteCharCode int
  | WriteString "int list"
  | NewLine
  | Clear
  | SetColor int
  | SetStyle FontStyle

fun Buffer_apply :: "Buffer \<Rightarrow> Buffer_op \<Rightarrow> Buffer" where
  "Buffer_apply b (WriteCharCode c) = Buffer_writeCharCode b (Num c)"
| "Buffer_apply b (WriteString s) = Buffer_writeString b s"
| "Buffer_apply b NewLine = Buffer_newLine b"
| "Buffer_apply b Clear = Buffer_clear b"
| "Buffer_apply b (SetColor c) = b\<lparr>b_color := c\<rparr>"
| "Buffer_apply b (SetStyle s) = b\<lparr>b_style := s\<rparr>"

fun Buffer_run :: "Buffer \<Rightarrow> Buffer_op list \<Rightarrow> Buffer" where
  "Buffer_run b [] = b"
| "Buffer_run b (x # xs) = Buffer_run (Buffer_apply b x) xs"

text \<open>The buffer states a client can reach from a constructor call.\<close>

inductive reachable :: "Buffer \<Rightarrow> bool" where
  constructed: "reachable (Buffer_new columns)"
| applied: "reachable b \<Longrightarrow> reachable (Buffer_apply b x)"

section \<open>Screen\<close>

text \<open>
  The class \<open>Terminal.Screen\<close>, without the canvas and the GPU state: the tile map
  \<open>screenBuffer\<close>, the grid size \<open>w\<close> \<times> \<open>h\<close>, the cursor \<open>x\<close>, \<open>y\<close>, the colour, the
  style, the number of tile columns of the sprite sheet and the dirty flag. The fields
  keep their names behind the prefix \<open>s_\<close>.
\<close>

record Screen =
  s_screenBuffer :: "8 word typed_array"
  s_tileColumns :: int
  s_w :: int
  s_h :: int
  s_x :: "int number"
  s_y :: "int number"
  s_color :: int
  s_style :: FontStyle
  s_dirty :: bool

definition glyphCount :: int where
  "glyphCount = 256"

text \<open>
  The screen as the constructor and \<open>resize()\<close> leave it, for the grid size
  \<open>screenW\<close> \<times> \<open>screenH\<close> and the tile columns that \<open>resize()\<close> and
  \<open>initializeSpriteSheet()\<close> compute from the canvas and the font metrics (both are
  \<open>\<dots> | 0\<close> of a quotient of non-negative measures).
\<close>

definition Screen_sized :: "nat \<Rightarrow> nat \<Rightarrow> int \<Rightarrow> Screen" where
  "Screen_sized screenW screenH tileColumns =
     \<lparr>s_screenBuffer = new_array (screenW * screenH * 4),
      s_tileColumns = tileColumns,
      s_w = int screenW,
      s_h = int screenH,
      s_x = Num 0,
      s_y = Num 0,
      s_color = 0xFFFF,
      s_style = Normal,
      s_dirty = True\<rparr>"

definition Screen_moveTo :: "Screen \<Rightarrow> int number \<Rightarrow> int number \<Rightarrow> Screen" where
  "Screen_moveTo s x y =
     s\<lparr>s_x := clamp (Num (toInt32 x)) (Num 0) (Num (s_w s)),
       s_y := clamp (Num (toInt32 y)) (Num 0) (Num (s_h s))\<rparr>"

definition Screen_invalidate :: "Screen \<Rightarrow> Screen" where
  "Screen_invalidate s = s\<lparr>s_dirty := True\<rparr>"

text \<open>
  The four stores \<open>buffer[i++] = \<dots>\<close> that \<open>writeCharCode\<close> and \<open>putChar\<close> share:
  the tile column and row of the glyph \<open>c\<close>, then the low and the high byte of the
  colour.
\<close>

definition store_cell :: "8 word typed_array \<Rightarrow> int number \<Rightarrow> int number \<Rightarrow> int
    \<Rightarrow> int number \<Rightarrow> 8 word typed_array" where
  "store_cell buffer i c tileColumns color =
     (let b1 = ta_set buffer i (Num (toInt32 (js_rem c (Num tileColumns))));
          b2 = ta_set b1 (num_add i (Num 1)) (Num (js_div_toInt32 c (Num tileColumns)));
          b3 = ta_set b2 (num_add i (Num 2)) color
      in ta_set b3 (num_add i (Num 3)) (Num (shr8 color)))"

definition Screen_writeCharCode :: "Screen \<Rightarrow> int number \<Rightarrow> Screen" where
  "Screen_writeCharCode s c =
     (if num_ge (s_x s) (Num (s_w s)) \<or> num_lt (s_x s) (Num 0) \<or>
         num_ge (s_y s) (Num (s_h s)) \<or> num_lt (s_y s) (Num 0)
      then s
      else
        let s1 = Screen_invalidate s;
            i = num_mul (num_add (num_mul (Num (s_w s1)) (s_y s1)) (s_x s1)) (Num 4);
            c1 = num_add c (Num (glyphCount * FontStyle_code (s_style s1)));
            s2 = s1\<lparr>s_screenBuffer :=
                      store_cell (s_screenBuffer s1) i c1 (s_tileColumns s1) (Num (s_color s1))\<rparr>
        in if num_lt (s_x s2) (Num (s_w s2)) then s2\<lparr>s_x := num_add (s_x s2) (Num 1)\<rparr>
           else s2)"

fun Screen_writeString :: "Screen \<Rightarrow> int list \<Rightarrow> Screen" where
  "Screen_writeString s [] = s"
| "Screen_writeString s (c # cs) = Screen_writeString (Screen_writeCharCode s (Num c)) cs"

text \<open>
  \<open>putChar(c, x, y, color, style)\<close>; the character, the colour and the style come from
  reads of the buffer's arrays, so they are numbers that may be \<open>NaN\<close>.
\<close>

definition Screen_putChar :: "Screen \<Rightarrow> int number \<Rightarrow> int number \<Rightarrow> int number
    \<Rightarrow> int number \<Rightarrow> int number \<Rightarrow> Screen" where
  "Screen_putChar s c x y color style =
     (let x1 = clamp (Num (toInt32 x)) (Num 0) (Num (s_w s));
          y1 = clamp (Num (toInt32 y)) (Num 0) (Num (s_h s));
          i = num_mul (num_add (num_mul y1 (Num (s_w s))) x1) (Num 4);
          c1 = num_add c (num_mul (Num glyphCount) style)
      in s\<lparr>s_screenBuffer := store_cell (s_screenBuffer s) i c1 (s_tileColumns s) color\<rparr>)"

text \<open>
  The inner loop of \<open>writeBuffer\<close>, \<open>for (var x = 0; x < l; x++)\<close>, over the values of
  \<open>x\<close> that are left; \<open>break\<close> returns the screen as it is.
\<close>

fun writeBuffer_row :: "Screen \<Rightarrow> Buffer \<Rightarrow> int number \<Rightarrow> int number \<Rightarrow> int number
    \<Rightarrow> int number \<Rightarrow> int \<Rightarrow> int list \<Rightarrow> Screen" where
  "writeBuffer_row scr buffer s sx dx dy y [] = scr"
| "writeBuffer_row scr buffer s sx dx dy y (x # xs) =
     (let p = num_add (num_add s sx) (Num x)
      in if num_gt p (Num (b_i buffer)) then scr
         else
           let c = ta_get (b_buffer buffer) p;
               color = ta_get (b_colors buffer) p;
               style = ta_get (b_styles buffer) p
           in writeBuffer_row
                (Screen_putChar scr c (num_add dx (Num x)) (num_add dy (Num y)) color style)
                buffer s sx dx dy y xs)"

text \<open>The outer loop, \<open>for (var y = 0; y < h; y++)\<close>, over the values of \<open>y\<close> left.\<close>

fun writeBuffer_rows :: "Screen \<Rightarrow> Buffer \<Rightarrow> int number \<Rightarrow> int number \<Rightarrow> int number
    \<Rightarrow> int number \<Rightarrow> int number \<Rightarrow> int list \<Rightarrow> Screen" where
  "writeBuffer_rows scr buffer sx sy dx dy w [] = scr"
| "writeBuffer_rows scr buffer sx sy dx dy w (y # ys) =
     (let s = ta_get (b_starts buffer) (num_add sy (Num y));
          e = (if num_add (num_add sy (Num y)) (Num 1) = Num (b_h buffer)
               then Num (b_i buffer)
               else ta_get (b_starts buffer) (num_add (num_add sy (Num y)) (Num 1)));
          l = Math_min (num_sub (num_sub e s) sx) w
      in writeBuffer_rows (writeBuffer_row scr buffer s sx dx dy y (loop_range l))
           buffer sx sy dx dy w ys)"

text \<open>
  \<open>writeBuffer(buffer, sx, sy, sw = 1024, sh = 1024)\<close>: \<open>None\<close> is an omitted (or
  \<open>undefined\<close>) width or height, which takes the default value.
\<close>

definition default_1024 :: "int number option \<Rightarrow> int number" where
  "default_1024 v = (case v of None \<Rightarrow> Num 1024 | Some n \<Rightarrow> n)"

definition Screen_writeBuffer :: "Screen \<Rightarrow> Buffer \<Rightarrow> int number \<Rightarrow> int number
    \<Rightarrow> int number option \<Rightarrow> int number option \<Rightarrow> Screen" where
  "Screen_writeBuffer scr buffer sx0 sy0 sw0 sh0 =
     (let dx = s_x scr;
          dy = s_y scr;
          sx = clamp (Num (toInt32 sx0)) (Num 0) (num_sub (Buffer_w buffer) (Num 1));
          sy = clamp (Num (toInt32 sy0)) (Num 0) (Num (b_h buffer - 1));
          sw = clamp (Num (toInt32 (default_1024 sw0))) (Num 0) (num_sub (Buffer_w buffer) sx);
          sh = clamp (Num (toInt32 (default_1024 sh0))) (Num 0) (num_sub (Num (b_h buffer)) sy);
          w = Math_min sw (num_sub (Num (s_w scr)) dx);
          h = Math_min sh (num_sub (Num (s_h scr)) dy)
      in Screen_invalidate (writeBuffer_rows scr buffer sx sy dx dy w (loop_range h)))"

section \<open>View\<close>

text \<open>
  The class \<open>Terminal.View\<close>: the scroll offsets \<open>x\<close>, \<open>y\<close> (fields \<open>v_x\<close>, \<open>v_y\<close>) and
  the version last rendered. The view refers to a screen and a buffer that other code
  changes; \<open>scroll\<close> reads their current states, which are its arguments here. The wheel
  handler passes fractional deltas, so the offsets are real numbers.
\<close>

record View =
  v_x :: "real number"
  v_y :: "real number"
  v_version :: int

definition View_new :: View where
  "View_new = \<lparr>v_x = Num 0, v_y = Num 0, v_version = 0\<rparr>"

definition View_scroll :: "View \<Rightarrow> Screen \<Rightarrow> Buffer \<Rightarrow> real number \<Rightarrow> real number \<Rightarrow> View" where
  "View_scroll v screen buffer x y =
     (let v1 = v\<lparr>v_y := clamp (num_add (v_y v) y) (Num 0)
                          (Num (of_int (b_h buffer - s_h screen)))\<rparr>;
          v2 = v1\<lparr>v_x := clamp (num_add (v_x v1) x) (Num 0)
                          (num_sub (map_number of_int (Buffer_w buffer))
                             (Num (of_int (s_w screen))))\<rparr>
      in v2\<lparr>v_version := 0\<rparr>)"

section \<open>Notions used in the statements and proofs\<close>

text \<open>
  The statements of \<open>writeCharCode\<close> after the column check: the growth of the three
  parallel arrays, the three stores and the two increments. \<open>Buffer_writeCharCode\<close> is
  this function applied after the optional line break (\<open>writeCharCode_append\<close>).
\<close>

definition append_cell :: "Buffer \<Rightarrow> int number \<Rightarrow> Buffer" where
  "append_cell b1 x =
     (let b2 = (if int (alen (b_buffer b1)) = b_i b1
                then b1\<lparr>b_buffer := ta_grow (b_buffer b1),
                        b_styles := ta_grow (b_styles b1),
                        b_colors := ta_grow (b_colors b1)\<rparr>
                else b1)
      in b2\<lparr>b_styles := ta_set (b_styles b2) (Num (b_i b2)) (Num (FontStyle_code (b_style b2))),
            b_colors := ta_set (b_colors b2) (Num (b_i b2)) (Num (b_color b2)),
            b_buffer := ta_set (b_buffer b2) (Num (b_i b2)) x,
            b_i := b_i b2 + 1,
            b_version := b_version b2 + 1\<rparr>)"

text \<open>
  What every reachable buffer satisfies: there is at least one row and the row count is
  within \<open>starts\<close>, the write index is within the three parallel arrays, which have one
  positive length, \<open>starts[0]\<close> is \<open>0\<close> (it is never written), and the maximum line
  width is a number.
\<close>

definition Buffer_inv :: "Buffer \<Rightarrow> bool" where
  "Buffer_inv b \<longleftrightarrow>
     1 \<le> b_h b \<and> b_h b \<le> int (alen (b_starts b)) \<and>
     0 \<le> b_i b \<and> b_i b \<le> int (alen (b_buffer b)) \<and> 0 < alen (b_buffer b) \<and>
     alen (b_styles b) = alen (b_buffer b) \<and> alen (b_colors b) = alen (b_buffer b) \<and>
     cell (b_starts b) 0 = 0 \<and> b_previousMaxLineWidth b \<noteq> NaN"

text \<open>The recorded line starts \<open>starts[0]\<close>, \<dots>, \<open>starts[h - 1]\<close>, as they are read.\<close>

definition lineStarts :: "Buffer \<Rightarrow> int number list" where
  "lineStarts b = map (\<lambda>k. ta_get (b_starts b) (Num (int k))) [0..<nat (b_h b)]"

text \<open>
  While the write index is below \<open>2^32\<close> (the line starts are \<open>Uint32Array\<close>
  entries), the recorded line starts do not decrease and none is above the write index.
\<close>

definition starts_ok :: "Buffer \<Rightarrow> bool" where
  "starts_ok b \<longleftrightarrow>
     (b_i b < 2 ^ 32 \<longrightarrow>
        (\<forall>j k. j \<le> k \<and> k < nat (b_h b) \<longrightarrow> cell (b_starts b) j \<le> cell (b_starts b) k) \<and>
        (\<forall>k<nat (b_h b). uint (cell (b_starts b) k) \<le> b_i b))"

text \<open>
  \<open>keeps_cells b b'\<close>: the write index has not gone back from \<open>b\<close> to \<open>b'\<close>, and every
  cell below the write index of \<open>b\<close> holds in \<open>b'\<close> what it holds in \<open>b\<close>.
\<close>

definition keeps_cells :: "Buffer \<Rightarrow> Buffer \<Rightarrow> bool" where
  "keeps_cells b b' \<longleftrightarrow>
     b_i b \<le> b_i b' \<and>
     (\<forall>k. k < nat (b_i b) \<longrightarrow>
        cell (b_buffer b') k = cell (b_buffer b) k \<and>
        cell (b_styles b') k = cell (b_styles b) k \<and>
        cell (b_colors b') k = cell (b_colors b) k)"

text \<open>The buffer after \<open>n\<close> calls \<open>writeCharCode(c)\<close> on a new buffer.\<close>

definition filled :: "nat \<Rightarrow> int \<Rightarrow> Buffer" where
  "filled n c = Buffer_run (Buffer_new None) (replicate n (WriteCharCode c))"

text \<open>
  \<open>painted b\<close>: every cell below the write index holds the active colour and style.
\<close>

definition painted :: "Buffer \<Rightarrow> bool" where
  "painted b \<longleftrightarrow>
     (\<forall>k<nat (b_i b). cell (b_colors b) k = word_of_int (b_color b) \<and>
                      cell (b_styles b) k = word_of_int (FontStyle_code (b_style b)))"

text \<open>
  The calls \<open>writeCharCode\<close> and \<open>writeString\<close> that carry no newline code, and the
  number of characters a call writes.
\<close>

fun no_newline :: "Buffer_op \<Rightarrow> bool" where
  "no_newline (WriteCharCode c) = (c \<noteq> CharacterCode_NewLine)"
| "no_newline (WriteString s) = (CharacterCode_NewLine \<notin> set s)"
| "no_newline _ = False"

fun chars_written :: "Buffer_op \<Rightarrow> int" where
  "chars_written (WriteCharCode c) = 1"
| "chars_written (WriteString s) = int (length s)"
| "chars_written _ = 0"

text \<open>
  \<open>same_content a b\<close>: the two buffers agree on every field but the arrays, on the
  line starts of their rows and on the cells below the write index. The lengths of the
  arrays and the cells beyond may differ.
\<close>

definition same_content :: "Buffer \<Rightarrow> Buffer \<Rightarrow> bool" where
  "same_content a b \<longleftrightarrow>
     b_h a = b_h b \<and> b_i a = b_i b \<and> b_columns a = b_columns b \<and>
     b_color a = b_color b \<and> b_style a = b_style b \<and>
     b_previousMaxLineWidth a = b_previousMaxLineWidth b \<and> b_version a = b_version b \<and>
     (\<forall>k<nat (b_h a). cell (b_starts a) k = cell (b_starts b) k) \<and>
     (\<forall>k<nat (b_i a).
        cell (b_buffer a) k = cell (b_buffer b) k \<and>
        cell (b_styles a) k = cell (b_styles b) k \<and>
        cell (b_colors a) k = cell (b_colors b) k)"

text \<open>
  \<open>agree ink a b\<close>: the two buffers have one write index and the same characters below
  it and, when \<open>ink\<close> holds, the same active colour and style and the same colours and
  styles below the write index. Rows, line starts, column cap and version may differ.
\<close>

definition agree :: "bool \<Rightarrow> Buffer \<Rightarrow> Buffer \<Rightarrow> bool" where
  "agree ink a b \<longleftrightarrow>
     b_i a = b_i b \<and>
     (\<forall>k<nat (b_i a). cell (b_buffer a) k = cell (b_buffer b) k) \<and>
     (ink \<longrightarrow> b_color a = b_color b \<and> b_style a = b_style b \<and>
        (\<forall>k<nat (b_i a). cell (b_styles a) k = cell (b_styles b) k \<and>
                         cell (b_colors a) k = cell (b_colors b) k))"

text \<open>
  \<open>new Buffer(c)\<close> followed by the assignment of the colour and the style of \<open>b\<close> to
  the public fields \<open>color\<close> and \<open>style\<close> of the new buffer.
\<close>

definition fresh_inked :: "int option \<Rightarrow> Buffer \<Rightarrow> Buffer" where
  "fresh_inked c b = (Buffer_new c)\<lparr>b_color := b_color b, b_style := b_style b\<rparr>"

text \<open>
  \<open>cursor_in s\<close>: the cursor is in \<open>[0, w] \<times> [0, h]\<close>, the bounds included.
  \<open>cursor_outside s\<close> is the test with which \<open>writeCharCode\<close> returns at once: a
  coordinate of the cursor is a number that is not in \<open>[0, w)\<close>, or \<open>[0, h)\<close>.
\<close>

definition cursor_in :: "Screen \<Rightarrow> bool" where
  "cursor_in s \<longleftrightarrow>
     num_ge (s_x s) (Num 0) \<and> num_ge (Num (s_w s)) (s_x s) \<and>
     num_ge (s_y s) (Num 0) \<and> num_ge (Num (s_h s)) (s_y s)"

definition cursor_outside :: "Screen \<Rightarrow> bool" where
  "cursor_outside s \<longleftrightarrow>
     num_ge (s_x s) (Num (s_w s)) \<or> num_lt (s_x s) (Num 0) \<or>
     num_ge (s_y s) (Num (s_h s)) \<or> num_lt (s_y s) (Num 0)"

text \<open>A loop bound that lets no iteration run: \<open>NaN\<close> or at most \<open>0\<close>.\<close>

definition nonpos :: "int number \<Rightarrow> bool" where
  "nonpos l \<longleftrightarrow> \<not> num_gt l (Num 0)"

text \<open>
  The four bytes of the tile map cell in column \<open>x\<close> and row \<open>y\<close>, as they are read,
  and the four bytes that the stores of the glyph \<open>c\<close> and the colour leave in a cell.
\<close>

definition tile :: "Screen \<Rightarrow> int \<Rightarrow> int \<Rightarrow> int number list" where
  "tile s x y = map (\<lambda>j. ta_get (s_screenBuffer s) (Num ((y * s_w s + x) * 4 + j))) [0, 1, 2, 3]"

definition tile_bytes :: "int number \<Rightarrow> int \<Rightarrow> int number \<Rightarrow> int number list" where
  "tile_bytes c tileColumns color =
     map (\<lambda>v. Num (uint (to_cell v :: 8 word)))
       [Num (toInt32 (js_rem c (Num tileColumns))), Num (js_div_toInt32 c (Num tileColumns)),
        color, Num (shr8 color)]"

section \<open>Typed arrays and the buffer operations, field by field\<close>

lemma alen_ta_set [simp]: "alen (ta_set a k v) = alen a"
  by (simp add: ta_set_def split: number.splits)

lemma alen_ta_grow [simp]: "alen (ta_grow a) = alen a * 2"
  by (simp add: ta_grow_def)

lemma alen_new_array [simp]: "alen (new_array n) = n"
  by (simp add: new_array_def)

lemma cell_new_array [simp]: "cell (new_array n) k = 0"
  by (simp add: new_array_def)

lemma cell_ta_grow: "cell (ta_grow a) k = (if k < alen a then cell a k else 0)"
  by (simp add: ta_grow_def)

lemma cell_ta_set:
  "cell (ta_set a (Num j) v) k =
     (if 0 \<le> j \<and> nat j < alen a \<and> k = nat j then to_cell v else cell a k)"
  by (simp add: ta_set_def)

lemma ta_get_Num:
  "0 \<le> j \<Longrightarrow> nat j < alen a \<Longrightarrow> ta_get a (Num j) = Num (uint (cell a (nat j)))"
  by (simp add: ta_get_def)

lemma writeCharCode_append:
  "Buffer_writeCharCode b x =
     append_cell (if num_ge (rowLength b) (Num (b_columns b)) then Buffer_newLine b else b) x"
  by (simp add: Buffer_writeCharCode_def append_cell_def Let_def)

lemma rowLength_grow_starts:
  "int (alen (b_starts b)) = b_h b \<Longrightarrow>
     rowLength (b\<lparr>b_starts := ta_grow (b_starts b)\<rparr>) = rowLength b"
  by (auto simp add: rowLength_def ta_get_def cell_ta_grow)

lemma newLine_fields [simp]:
  "b_h (Buffer_newLine b) = b_h b + 1"
  "b_i (Buffer_newLine b) = b_i b"
  "b_buffer (Buffer_newLine b) = b_buffer b"
  "b_styles (Buffer_newLine b) = b_styles b"
  "b_colors (Buffer_newLine b) = b_colors b"
  "b_columns (Buffer_newLine b) = b_columns b"
  "b_color (Buffer_newLine b) = b_color b"
  "b_style (Buffer_newLine b) = b_style b"
  "b_version (Buffer_newLine b) = b_version b + 1"
  by (simp_all add: Buffer_newLine_def Let_def)

lemma newLine_pm [simp]:
  "b_previousMaxLineWidth (Buffer_newLine b) =
     Math_max (b_previousMaxLineWidth b) (rowLength b)"
  by (simp add: Buffer_newLine_def Let_def rowLength_grow_starts)

lemma newLine_starts:
  "b_starts (Buffer_newLine b) =
     ta_set (if int (alen (b_starts b)) = b_h b then ta_grow (b_starts b) else b_starts b)
       (Num (b_h b)) (Num (b_i b))"
  by (simp add: Buffer_newLine_def Let_def)

lemma append_cell_fields [simp]:
  "b_h (append_cell b x) = b_h b"
  "b_i (append_cell b x) = b_i b + 1"
  "b_starts (append_cell b x) = b_starts b"
  "b_columns (append_cell b x) = b_columns b"
  "b_color (append_cell b x) = b_color b"
  "b_style (append_cell b x) = b_style b"
  "b_version (append_cell b x) = b_version b + 1"
  "b_previousMaxLineWidth (append_cell b x) = b_previousMaxLineWidth b"
  by (simp_all add: append_cell_def Let_def)

lemma append_cell_alen [simp]:
  "alen (b_buffer (append_cell b x)) =
     (if int (alen (b_buffer b)) = b_i b then alen (b_buffer b) * 2 else alen (b_buffer b))"
  "alen (b_styles (append_cell b x)) =
     (if int (alen (b_buffer b)) = b_i b then alen (b_styles b) * 2 else alen (b_styles b))"
  "alen (b_colors (append_cell b x)) =
     (if int (alen (b_buffer b)) = b_i b then alen (b_colors b) * 2 else alen (b_colors b))"
  by (simp_all add: append_cell_def Let_def)

lemma append_cell_cells:
  "cell (b_buffer (append_cell b x)) k =
     (let a = (if int (alen (b_buffer b)) = b_i b then ta_grow (b_buffer b) else b_buffer b)
      in if 0 \<le> b_i b \<and> nat (b_i b) < alen a \<and> k = nat (b_i b) then to_cell x else cell a k)"
  "cell (b_styles (append_cell b x)) k =
     (let a = (if int (alen (b_buffer b)) = b_i b then ta_grow (b_styles b) else b_styles b)
      in if 0 \<le> b_i b \<and> nat (b_i b) < alen a \<and> k = nat (b_i b)
         then to_cell (Num (FontStyle_code (b_style b))) else cell a k)"
  "cell (b_colors (append_cell b x)) k =
     (let a = (if int (alen (b_buffer b)) = b_i b then ta_grow (b_colors b) else b_colors b)
      in if 0 \<le> b_i b \<and> nat (b_i b) < alen a \<and> k = nat (b_i b)
         then to_cell (Num (b_color b)) else cell a k)"
  by (auto simp add: append_cell_def Let_def cell_ta_set cell_ta_grow)

lemma writeCharCode_fields [simp]:
  "b_i (Buffer_writeCharCode b x) = b_i b + 1"
  "b_columns (Buffer_writeCharCode b x) = b_columns b"
  "b_color (Buffer_writeCharCode b x) = b_color b"
  "b_style (Buffer_writeCharCode b x) = b_style b"
  by (simp_all add: writeCharCode_append)

lemma clear_fields [simp]:
  "b_h (Buffer_clear b) = 1"
  "b_i (Buffer_clear b) = 0"
  "b_version (Buffer_clear b) = 0"
  "b_previousMaxLineWidth (Buffer_clear b) = Num 0"
  "b_starts (Buffer_clear b) = b_starts b"
  "b_buffer (Buffer_clear b) = b_buffer b"
  "b_styles (Buffer_clear b) = b_styles b"
  "b_colors (Buffer_clear b) = b_colors b"
  "b_columns (Buffer_clear b) = b_columns b"
  "b_color (Buffer_clear b) = b_color b"
  "b_style (Buffer_clear b) = b_style b"
  by (simp_all add: Buffer_clear_def)

lemma writeString_fields [simp]:
  "b_columns (Buffer_writeString b s) = b_columns b"
  "b_color (Buffer_writeString b s) = b_color b"
  "b_style (Buffer_writeString b s) = b_style b"
  by (induction s arbitrary: b) simp_all

text \<open>The facts that evaluate the buffer operations on a given buffer.\<close>

lemmas buffer_eval = CharacterCode_NewLine_def writeCharCode_append rowLength_def ta_get_def
  Buffer_new_def toInt32_def newLine_starts cell_ta_set cell_ta_grow to_cell_def

section \<open>The invariant of reachable buffers\<close>

lemma inv_new: "Buffer_inv (Buffer_new c)"
  by (simp add: Buffer_inv_def Buffer_new_def)

lemma inv_newLine: "Buffer_inv b \<Longrightarrow> Buffer_inv (Buffer_newLine b)"
  apply (simp add: Buffer_inv_def newLine_starts cell_ta_set cell_ta_grow)
  apply (auto simp add: rowLength_def ta_get_def)
  apply (cases "b_previousMaxLineWidth b"; simp)
  done

lemma inv_append: "Buffer_inv b \<Longrightarrow> Buffer_inv (append_cell b x)"
  by (auto simp add: Buffer_inv_def)

lemma inv_writeCharCode: "Buffer_inv b \<Longrightarrow> Buffer_inv (Buffer_writeCharCode b x)"
  by (simp add: writeCharCode_append inv_newLine inv_append)

lemma inv_writeString: "Buffer_inv b \<Longrightarrow> Buffer_inv (Buffer_writeString b s)"
  by (induction s arbitrary: b) (simp_all add: inv_newLine inv_writeCharCode)

lemma inv_clear: "Buffer_inv b \<Longrightarrow> Buffer_inv (Buffer_clear b)"
  by (simp add: Buffer_inv_def Buffer_clear_def)

lemma inv_apply: "Buffer_inv b \<Longrightarrow> Buffer_inv (Buffer_apply b x)"
  by (cases x)
    (simp_all add: inv_newLine inv_writeCharCode inv_writeString inv_clear,
     simp_all add: Buffer_inv_def)

lemma reachable_inv: "reachable b \<Longrightarrow> Buffer_inv b"
  by (induction rule: reachable.induct) (simp_all add: inv_new inv_apply)

lemma reachable_run: "reachable b \<Longrightarrow> reachable (Buffer_run b xs)"
  by (induction xs arbitrary: b) (simp_all add: reachable.applied)

section \<open>Written cells stay where they are\<close>

lemma keeps_cells_refl: "keeps_cells b b"
  by (simp add: keeps_cells_def)

lemma keeps_cells_trans: "keeps_cells a b \<Longrightarrow> keeps_cells b c \<Longrightarrow> keeps_cells a c"
  by (auto simp add: keeps_cells_def)

lemma keeps_newLine: "keeps_cells b (Buffer_newLine b)"
  by (simp add: keeps_cells_def)

lemma keeps_append: "Buffer_inv b \<Longrightarrow> keeps_cells b (append_cell b x)"
  by (auto simp add: keeps_cells_def Buffer_inv_def append_cell_cells cell_ta_grow Let_def)

lemma keeps_writeCharCode: "Buffer_inv b \<Longrightarrow> keeps_cells b (Buffer_writeCharCode b x)"
proof (cases "num_ge (rowLength b) (Num (b_columns b))")
  case True
  assume "Buffer_inv b"
  then have "keeps_cells (Buffer_newLine b) (append_cell (Buffer_newLine b) x)"
    by (intro keeps_append inv_newLine)
  with keeps_newLine have "keeps_cells b (append_cell (Buffer_newLine b) x)"
    by (rule keeps_cells_trans)
  with True show ?thesis by (simp add: writeCharCode_append)
next
  case False
  assume "Buffer_inv b"
  with False show ?thesis by (simp add: writeCharCode_append keeps_append)
qed

lemma keeps_writeString: "Buffer_inv b \<Longrightarrow> keeps_cells b (Buffer_writeString b s)"
proof (induction s arbitrary: b)
  case Nil
  show ?case by (simp add: keeps_cells_refl)
next
  case (Cons c s)
  let ?b1 = "if c = CharacterCode_NewLine then Buffer_newLine b else Buffer_writeCharCode b (Num c)"
  have "keeps_cells b ?b1"
    using Cons.prems by (simp add: keeps_newLine keeps_writeCharCode)
  moreover have "Buffer_inv ?b1"
    using Cons.prems by (simp add: inv_newLine inv_writeCharCode)
  then have "keeps_cells ?b1 (Buffer_writeString ?b1 s)"
    by (rule Cons.IH)
  ultimately have "keeps_cells b (Buffer_writeString ?b1 s)"
    by (rule keeps_cells_trans)
  then show ?case by simp
qed

lemma keeps_apply: "Buffer_inv b \<Longrightarrow> x \<noteq> Clear \<Longrightarrow> keeps_cells b (Buffer_apply b x)"
proof (cases x)
  case (SetColor c)
  then show ?thesis by (simp add: keeps_cells_def)
next
  case (SetStyle s)
  then show ?thesis by (simp add: keeps_cells_def)
qed (simp_all add: keeps_newLine keeps_writeCharCode keeps_writeString)

lemma inv_run: "Buffer_inv b \<Longrightarrow> Buffer_inv (Buffer_run b xs)"
  by (induction xs arbitrary: b) (simp_all add: inv_apply)

lemma keeps_run: "Buffer_inv b \<Longrightarrow> Clear \<notin> set xs \<Longrightarrow> keeps_cells b (Buffer_run b xs)"
proof (induction xs arbitrary: b)
  case Nil
  show ?case by (simp add: keeps_cells_refl)
next
  case (Cons x xs)
  have "keeps_cells b (Buffer_apply b x)"
    using Cons.prems by (auto intro: keeps_apply)
  moreover have "keeps_cells (Buffer_apply b x) (Buffer_run (Buffer_apply b x) xs)"
    using Cons.prems by (auto intro: Cons.IH inv_apply)
  ultimately have "keeps_cells b (Buffer_run (Buffer_apply b x) xs)"
    by (rule keeps_cells_trans)
  then show ?case by simp
qed

lemma run_append: "Buffer_run b (xs @ ys) = Buffer_run (Buffer_run b xs) ys"
  by (induction xs arbitrary: b) simp_all

lemma filled_Suc: "filled (Suc n) c = Buffer_writeCharCode (filled n c) (Num c)"
proof -
  have "replicate (Suc n) (WriteCharCode c) = replicate n (WriteCharCode c) @ [WriteCharCode c]"
    by (simp add: replicate_append_same)
  then show ?thesis
    by (simp only: filled_def run_append Buffer_run.simps Buffer_apply.simps)
qed

lemma filled_state:
  "n \<le> 1048576 \<Longrightarrow>
     b_i (filled n c) = int n \<and> b_h (filled n c) = 1 \<and>
     b_columns (filled n c) = 1048576 \<and>
     b_color (filled n c) = 65535 \<and> b_style (filled n c) = Normal \<and>
     alen (b_starts (filled n c)) = 32 \<and>
     cell (b_starts (filled n c)) 0 = 0 \<and>
     alen (b_buffer (filled n c)) = 1048576 \<and>
     alen (b_styles (filled n c)) = 1048576 \<and>
     alen (b_colors (filled n c)) = 1048576 \<and>
     (\<forall>k<n. cell (b_buffer (filled n c)) k = word_of_int c \<and>
            cell (b_styles (filled n c)) k = 0 \<and>
            cell (b_colors (filled n c)) k = 65535)"
proof (induction n)
  case 0
  show ?case by (simp add: filled_def Buffer_new_def toInt32_def)
next
  case (Suc n)
  then have IH: "b_i (filled n c) = int n" "b_h (filled n c) = 1"
     "b_columns (filled n c) = 1048576"
     "b_color (filled n c) = 65535" "b_style (filled n c) = Normal"
     "alen (b_starts (filled n c)) = 32"
     "cell (b_starts (filled n c)) 0 = 0"
     "alen (b_buffer (filled n c)) = 1048576"
     "alen (b_styles (filled n c)) = 1048576"
     "alen (b_colors (filled n c)) = 1048576"
     "\<forall>k<n. cell (b_buffer (filled n c)) k = word_of_int c \<and>
            cell (b_styles (filled n c)) k = 0 \<and>
            cell (b_colors (filled n c)) k = 65535"
    by simp_all
  have n: "n < 1048576" using Suc.prems by simp
  have rl: "rowLength (filled n c) = Num (int n)"
    by (simp add: rowLength_def ta_get_def IH)
  have step: "filled (Suc n) c = append_cell (filled n c) (Num c)"
    using n by (simp add: filled_Suc writeCharCode_append rl IH)
  show ?case
    unfolding step using n IH
    by (auto simp add: append_cell_cells to_cell_def less_Suc_eq)
qed

lemma reachable_filled: "reachable (filled n c)"
  unfolding filled_def by (intro reachable_run reachable.constructed)

text \<open>
  Claim C7. A sequence of \<open>writeCharCode\<close>, \<open>writeString\<close> and \<open>newLine\<close> calls
  (and colour or style changes) on a reachable buffer leaves every cell below the write
  index readable at its index, in each of the three arrays, with the character, the
  style and the colour it held, whether or not the calls double the arrays: each read,
  before and after, gives a number and the same one. (\<open>clear()\<close> is no write: it
  rewinds the write index, and later writes reuse the cells.)
\<close>

theorem growth_preserves:
  assumes "reachable b" and "Clear \<notin> set xs" and "0 \<le> k" and "k < b_i b"
  shows "b_i b \<le> b_i (Buffer_run b xs) \<and>
         ta_get (b_buffer (Buffer_run b xs)) (Num k) = ta_get (b_buffer b) (Num k) \<and>
         ta_get (b_styles (Buffer_run b xs)) (Num k) = ta_get (b_styles b) (Num k) \<and>
         ta_get (b_colors (Buffer_run b xs)) (Num k) = ta_get (b_colors b) (Num k) \<and>
         ta_get (b_buffer b) (Num k) \<noteq> NaN \<and>
         ta_get (b_styles b) (Num k) \<noteq> NaN \<and>
         ta_get (b_colors b) (Num k) \<noteq> NaN \<and>
         ta_get (b_buffer (Buffer_run b xs)) (Num k) \<noteq> NaN \<and>
         ta_get (b_styles (Buffer_run b xs)) (Num k) \<noteq> NaN \<and>
         ta_get (b_colors (Buffer_run b xs)) (Num k) \<noteq> NaN"
proof -
  have inv: "Buffer_inv b" using assms(1) by (rule reachable_inv)
  then have inv': "Buffer_inv (Buffer_run b xs)" by (rule inv_run)
  have keeps: "keeps_cells b (Buffer_run b xs)"
    using inv assms(2) by (rule keeps_run)
  have k: "nat k < nat (b_i b)" using assms(3,4) by simp
  have "nat k < alen (b_buffer b)"
    using inv assms(3,4) unfolding Buffer_inv_def by linarith
  then have in1: "nat k < alen (b_buffer b)" "nat k < alen (b_styles b)"
      "nat k < alen (b_colors b)"
    using inv by (simp_all add: Buffer_inv_def)
  have "nat k < alen (b_buffer (Buffer_run b xs))"
    using inv' keeps assms(3,4) unfolding Buffer_inv_def keeps_cells_def by linarith
  then have in2: "nat k < alen (b_buffer (Buffer_run b xs))"
      "nat k < alen (b_styles (Buffer_run b xs))" "nat k < alen (b_colors (Buffer_run b xs))"
    using inv' by (simp_all add: Buffer_inv_def)
  have cells: "cell (b_buffer (Buffer_run b xs)) (nat k) = cell (b_buffer b) (nat k)"
      "cell (b_styles (Buffer_run b xs)) (nat k) = cell (b_styles b) (nat k)"
      "cell (b_colors (Buffer_run b xs)) (nat k) = cell (b_colors b) (nat k)"
    using keeps k by (simp_all add: keeps_cells_def)
  have "b_i b \<le> b_i (Buffer_run b xs)" using keeps by (simp add: keeps_cells_def)
  then show ?thesis
    using in1 in2 cells assms(3) by (simp add: ta_get_Num)
qed

text \<open>
  The theorem where the arrays double: after \<open>1048576\<close> characters the three arrays are
  full, the next character doubles each of them to \<open>2097152\<close> cells, and the last
  character written before is still read at index \<open>1048575\<close>, with its style and its
  colour.
\<close>

theorem growth_preserves_witness:
  "reachable (filled 1048576 65) \<and> Clear \<notin> set [WriteCharCode 66] \<and>
   (0::int) \<le> 1048575 \<and> 1048575 < b_i (filled 1048576 65) \<and>
   alen (b_buffer (filled 1048576 65)) = 1048576 \<and>
   alen (b_buffer (Buffer_run (filled 1048576 65) [WriteCharCode 66])) = 2097152 \<and>
   alen (b_styles (Buffer_run (filled 1048576 65) [WriteCharCode 66])) = 2097152 \<and>
   alen (b_colors (Buffer_run (filled 1048576 65) [WriteCharCode 66])) = 2097152 \<and>
   ta_get (b_buffer (Buffer_run (filled 1048576 65) [WriteCharCode 66])) (Num 1048575) = Num 65 \<and>
   ta_get (b_styles (Buffer_run (filled 1048576 65) [WriteCharCode 66])) (Num 1048575) = Num 0 \<and>
   ta_get (b_colors (Buffer_run (filled 1048576 65) [WriteCharCode 66])) (Num 1048575) =
     Num 65535"
proof -
  have st: "b_i (filled 1048576 65) = 1048576" "b_h (filled 1048576 65) = 1"
     "b_columns (filled 1048576 65) = 1048576" "alen (b_starts (filled 1048576 65)) = 32"
     "cell (b_starts (filled 1048576 65)) 0 = 0"
     "alen (b_buffer (filled 1048576 65)) = 1048576"
     "alen (b_styles (filled 1048576 65)) = 1048576"
     "alen (b_colors (filled 1048576 65)) = 1048576"
     "cell (b_buffer (filled 1048576 65)) 1048575 = 65"
     "cell (b_styles (filled 1048576 65)) 1048575 = 0"
     "cell (b_colors (filled 1048576 65)) 1048575 = 65535"
    using filled_state [of 1048576 65] by simp_all
  have r: "reachable (filled 1048576 65)" by (rule reachable_filled)
  have old: "ta_get (b_buffer (filled 1048576 65)) (Num 1048575) = Num 65"
      "ta_get (b_styles (filled 1048576 65)) (Num 1048575) = Num 0"
      "ta_get (b_colors (filled 1048576 65)) (Num 1048575) = Num 65535"
    by (simp_all add: ta_get_def st)
  have rl: "rowLength (filled 1048576 65) = Num 1048576"
    by (simp add: rowLength_def ta_get_def st)
  have len: "alen (b_buffer (Buffer_run (filled 1048576 65) [WriteCharCode 66])) = 2097152"
      "alen (b_styles (Buffer_run (filled 1048576 65) [WriteCharCode 66])) = 2097152"
      "alen (b_colors (Buffer_run (filled 1048576 65) [WriteCharCode 66])) = 2097152"
    by (simp_all add: writeCharCode_append rl st)
  show ?thesis
    using growth_preserves [OF r, of "[WriteCharCode 66]" 1048575] old len r
    by (simp add: st)
qed

section \<open>The forced line break at the column cap\<close>

text \<open>
  Claim C5. When the length of the current row has reached the column cap
  (\<open>i - starts[h - 1] >= columns\<close>), \<open>writeCharCode(c)\<close> breaks the line first: the row
  count grows by one, the new row starts at the old write index, and \<open>c\<close> (as a byte) is
  stored there, so the new row has length \<open>1\<close>. Nothing is dropped and the call is total.
  The line start is a \<open>Uint32Array\<close> entry, so the write index is taken below \<open>2^32\<close>.
\<close>

theorem cap_forces_line_break:
  assumes "reachable b" and "b_i b < 2 ^ 32"
    and "num_ge (rowLength b) (Num (b_columns b))"
  shows "b_h (Buffer_writeCharCode b (Num c)) = b_h b + 1 \<and>
         b_i (Buffer_writeCharCode b (Num c)) = b_i b + 1 \<and>
         ta_get (b_starts (Buffer_writeCharCode b (Num c))) (Num (b_h b)) = Num (b_i b) \<and>
         ta_get (b_buffer (Buffer_writeCharCode b (Num c))) (Num (b_i b)) = Num (c mod 256) \<and>
         rowLength (Buffer_writeCharCode b (Num c)) = Num 1"
proof -
  have inv: "Buffer_inv b" using assms(1) by (rule reachable_inv)
  then have inv1: "Buffer_inv (Buffer_newLine b)" by (rule inv_newLine)
  have w: "Buffer_writeCharCode b (Num c) = append_cell (Buffer_newLine b) (Num c)"
    using assms(3) by (simp add: writeCharCode_append)
  have h: "0 \<le> b_h b" "0 \<le> b_i b" using inv by (simp_all add: Buffer_inv_def)
  have "nat (b_h b) < alen (b_starts (Buffer_newLine b))"
    using inv1 unfolding Buffer_inv_def newLine_fields by linarith
  then have s: "ta_get (b_starts (Buffer_newLine b)) (Num (b_h b)) = Num (b_i b)"
    using h assms(2)
    by (simp add: ta_get_Num) (simp add: newLine_starts cell_ta_set to_cell_def uint_word_of_int)
  have "b_i b + 1 \<le> int (alen (b_buffer (append_cell (Buffer_newLine b) (Num c))))"
    using inv_append [OF inv1, of "Num c"] by (simp add: Buffer_inv_def)
  then have in_range: "nat (b_i b) < alen (b_buffer (append_cell (Buffer_newLine b) (Num c)))"
    using h by linarith
  have "cell (b_buffer (append_cell (Buffer_newLine b) (Num c))) (nat (b_i b)) = word_of_int c"
    using inv h by (auto simp add: append_cell_cells to_cell_def Let_def Buffer_inv_def)
  then have c: "ta_get (b_buffer (append_cell (Buffer_newLine b) (Num c))) (Num (b_i b)) = Num (c mod 256)"
    using h in_range by (simp add: ta_get_Num uint_word_of_int)
  show ?thesis
    unfolding w using s c by (simp add: rowLength_def)
qed

text \<open>
  The theorem on a buffer with a cap of two columns that holds \<open>ab\<close>: writing \<open>c\<close>
  opens row \<open>1\<close> at index \<open>2\<close> and stores \<open>99\<close> there.
\<close>

theorem cap_forces_line_break_witness:
  "reachable (Buffer_writeString (Buffer_new (Some 2)) [97, 98]) \<and>
   b_i (Buffer_writeString (Buffer_new (Some 2)) [97, 98]) < 2 ^ 32 \<and>
   num_ge (rowLength (Buffer_writeString (Buffer_new (Some 2)) [97, 98]))
     (Num (b_columns (Buffer_writeString (Buffer_new (Some 2)) [97, 98]))) \<and>
   b_h (Buffer_writeCharCode (Buffer_writeString (Buffer_new (Some 2)) [97, 98]) (Num 99)) = 2 \<and>
   ta_get (b_starts (Buffer_writeCharCode (Buffer_writeString (Buffer_new (Some 2)) [97, 98])
      (Num 99))) (Num 1) = Num 2 \<and>
   ta_get (b_buffer (Buffer_writeCharCode (Buffer_writeString (Buffer_new (Some 2)) [97, 98])
      (Num 99))) (Num 2) = Num 99"
proof -
  let ?b = "Buffer_writeString (Buffer_new (Some 2)) [97, 98]"
  have "reachable (Buffer_apply (Buffer_new (Some 2)) (WriteString [97, 98]))"
    by (intro reachable.intros)
  then have r: "reachable ?b" by simp
  have st: "b_i ?b = 2" "b_h ?b = 1" "b_columns ?b = 2"
    by (simp_all add: CharacterCode_NewLine_def writeCharCode_append rowLength_def ta_get_def
          Buffer_new_def toInt32_def)
  have rl: "rowLength ?b = Num 2"
    by (simp add: CharacterCode_NewLine_def writeCharCode_append rowLength_def ta_get_def
          Buffer_new_def toInt32_def)
  show ?thesis
    using cap_forces_line_break [OF r, of 99] r st rl by simp
qed

section \<open>What \<open>clear()\<close> leaves alone\<close>

lemma painted_clear: "painted (Buffer_clear b)"
  by (simp add: painted_def Buffer_clear_def)

lemma painted_newLine: "painted b \<Longrightarrow> painted (Buffer_newLine b)"
  by (simp add: painted_def)

lemma painted_append: "Buffer_inv b \<Longrightarrow> painted b \<Longrightarrow> painted (append_cell b x)"
  by (auto simp add: painted_def Buffer_inv_def append_cell_cells cell_ta_grow to_cell_def Let_def)

lemma painted_writeCharCode:
  "Buffer_inv b \<Longrightarrow> painted b \<Longrightarrow> painted (Buffer_writeCharCode b x)"
  by (simp add: writeCharCode_append painted_append painted_newLine inv_newLine)

lemma painted_writeString:
  "Buffer_inv b \<Longrightarrow> painted b \<Longrightarrow> painted (Buffer_writeString b s)"
  by (induction s arbitrary: b)
     (simp_all add: painted_newLine painted_writeCharCode inv_newLine inv_writeCharCode)

lemma uint_style_cell: "uint (word_of_int (FontStyle_code s) :: 8 word) = FontStyle_code s"
  by (cases s) simp_all

text \<open>
  Claim C10. \<open>clear()\<close> changes neither the active colour nor the active style, and
  every character a \<open>writeString\<close> stores after it records that colour (as 16 bits) and
  that style, not the constructor's \<open>0xFFFF\<close> and \<open>Normal\<close>.
\<close>

theorem clear_keeps_color_and_style:
  assumes "reachable b" and "0 \<le> k" and "k < b_i (Buffer_writeString (Buffer_clear b) s)"
  shows "b_color (Buffer_clear b) = b_color b \<and> b_style (Buffer_clear b) = b_style b \<and>
         ta_get (b_colors (Buffer_writeString (Buffer_clear b) s)) (Num k) =
           Num (b_color b mod 2 ^ 16) \<and>
         ta_get (b_styles (Buffer_writeString (Buffer_clear b) s)) (Num k) =
           Num (FontStyle_code (b_style b))"
proof -
  let ?b' = "Buffer_writeString (Buffer_clear b) s"
  have inv: "Buffer_inv (Buffer_clear b)"
    using assms(1) by (intro inv_clear reachable_inv)
  then have inv': "Buffer_inv ?b'" by (rule inv_writeString)
  have "painted ?b'"
    using inv painted_clear by (rule painted_writeString)
  then have cells: "cell (b_colors ?b') (nat k) = word_of_int (b_color b)"
      "cell (b_styles ?b') (nat k) = word_of_int (FontStyle_code (b_style b))"
    using assms(2,3) by (simp_all add: painted_def)
  have "nat k < alen (b_buffer ?b')"
    using inv' assms(2,3) unfolding Buffer_inv_def by linarith
  then have "nat k < alen (b_colors ?b')" "nat k < alen (b_styles ?b')"
    using inv' by (simp_all add: Buffer_inv_def)
  then have "ta_get (b_colors ?b') (Num k) = Num (uint (cell (b_colors ?b') (nat k)))"
      "ta_get (b_styles ?b') (Num k) = Num (uint (cell (b_styles ?b') (nat k)))"
    using assms(2) by (simp_all add: ta_get_Num)
  then have "ta_get (b_colors ?b') (Num k) = Num (b_color b mod 2 ^ 16)"
      "ta_get (b_styles ?b') (Num k) = Num (FontStyle_code (b_style b))"
    unfolding cells by (simp_all only: uint_style_cell) (simp add: uint_word_of_int)
  then show ?thesis by simp
qed

text \<open>
  The theorem on a buffer whose colour was set to \<open>5\<close> and style to \<open>Bold\<close>: after
  \<open>clear()\<close> the characters of \<open>bc\<close> are stored with colour \<open>5\<close> and style \<open>1\<close>.
\<close>

theorem clear_keeps_color_and_style_witness:
  "reachable (Buffer_run (Buffer_new None) [SetColor 5, SetStyle Bold, WriteString [97]]) \<and>
   (0::int) \<le> 1 \<and>
   1 < b_i (Buffer_writeString (Buffer_clear
         (Buffer_run (Buffer_new None) [SetColor 5, SetStyle Bold, WriteString [97]])) [98, 99]) \<and>
   ta_get (b_colors (Buffer_writeString (Buffer_clear
         (Buffer_run (Buffer_new None) [SetColor 5, SetStyle Bold, WriteString [97]])) [98, 99]))
      (Num 1) = Num 5 \<and>
   ta_get (b_styles (Buffer_writeString (Buffer_clear
         (Buffer_run (Buffer_new None) [SetColor 5, SetStyle Bold, WriteString [97]])) [98, 99]))
      (Num 1) = Num 1"
proof -
  let ?b = "Buffer_run (Buffer_new None) [SetColor 5, SetStyle Bold, WriteString [97]]"
  have r: "reachable ?b" by (intro reachable_run reachable.constructed)
  have i: "b_i (Buffer_writeString (Buffer_clear ?b) [98, 99]) = 2"
    by (simp add: CharacterCode_NewLine_def)
  have c: "b_color ?b = 5" "b_style ?b = Bold"
    by (simp_all add: CharacterCode_NewLine_def)
  show ?thesis
    using clear_keeps_color_and_style [OF r, of 1 "[98, 99]"] r i c by simp
qed

section \<open>The line starts\<close>

lemma starts_ok_new: "starts_ok (Buffer_new c)"
  by (simp add: starts_ok_def Buffer_new_def)

lemma starts_ok_clear: "Buffer_inv b \<Longrightarrow> starts_ok (Buffer_clear b)"
  by (simp add: starts_ok_def Buffer_inv_def)

lemma newLine_cell:
  assumes "Buffer_inv b"
  shows "cell (b_starts (Buffer_newLine b)) k =
           (if k = nat (b_h b) then word_of_int (b_i b)
            else if k < nat (b_h b) then cell (b_starts b) k
            else cell (b_starts (Buffer_newLine b)) k)"
  using assms
  by (auto simp add: Buffer_inv_def newLine_starts cell_ta_set cell_ta_grow to_cell_def)

lemma starts_ok_newLine:
  assumes "Buffer_inv b" and "starts_ok b"
  shows "starts_ok (Buffer_newLine b)"
proof -
  { assume lt: "b_i b < 2 ^ 32"
    have i0: "0 \<le> b_i b" and h1: "1 \<le> b_h b" using assms(1) by (simp_all add: Buffer_inv_def)
    have ui: "uint (word_of_int (b_i b) :: 32 word) = b_i b"
      using lt i0 by (simp add: uint_word_of_int)
    have mono: "\<And>j k. j \<le> k \<Longrightarrow> k < nat (b_h b) \<Longrightarrow> cell (b_starts b) j \<le> cell (b_starts b) k"
      and below: "\<And>k. k < nat (b_h b) \<Longrightarrow> uint (cell (b_starts b) k) \<le> b_i b"
      using assms(2) lt by (simp_all add: starts_ok_def)
    have new_below: "\<And>k. k < nat (b_h b + 1) \<Longrightarrow> uint (cell (b_starts (Buffer_newLine b)) k) \<le> b_i b"
    proof -
      fix k assume "k < nat (b_h b + 1)"
      then have "k = nat (b_h b) \<or> k < nat (b_h b)" using h1 by linarith
      then show "uint (cell (b_starts (Buffer_newLine b)) k) \<le> b_i b"
        using below ui by (subst newLine_cell [OF assms(1)]) auto
    qed
    have new_mono: "\<And>j k. j \<le> k \<Longrightarrow> k < nat (b_h b + 1) \<Longrightarrow>
        cell (b_starts (Buffer_newLine b)) j \<le> cell (b_starts (Buffer_newLine b)) k"
    proof -
      fix j k :: nat assume jk: "j \<le> k" and k: "k < nat (b_h b + 1)"
      then have cases: "k = nat (b_h b) \<or> k < nat (b_h b)" using h1 by linarith
      show "cell (b_starts (Buffer_newLine b)) j \<le> cell (b_starts (Buffer_newLine b)) k"
      proof (cases "k = nat (b_h b)")
        case True
        have "j < nat (b_h b + 1)" using jk k by simp
        then have "uint (cell (b_starts (Buffer_newLine b)) j) \<le> b_i b" by (rule new_below)
        moreover have "cell (b_starts (Buffer_newLine b)) k = word_of_int (b_i b)"
          using True by (subst newLine_cell [OF assms(1)]) simp
        ultimately show ?thesis by (simp add: word_le_def ui)
      next
        case False
        then have "k < nat (b_h b)" "j < nat (b_h b)" using cases jk by simp_all
        then have "cell (b_starts (Buffer_newLine b)) j = cell (b_starts b) j"
            "cell (b_starts (Buffer_newLine b)) k = cell (b_starts b) k"
          by (subst newLine_cell [OF assms(1)], simp)+
        then show ?thesis using mono [OF jk \<open>k < nat (b_h b)\<close>] by simp
      qed
    qed
    note new_mono new_below }
  then show ?thesis by (simp add: starts_ok_def)
qed

lemma starts_ok_append: "starts_ok b \<Longrightarrow> starts_ok (append_cell b x)"
  by (simp add: starts_ok_def) force

lemma starts_ok_writeCharCode:
  "Buffer_inv b \<Longrightarrow> starts_ok b \<Longrightarrow> starts_ok (Buffer_writeCharCode b x)"
  by (simp add: writeCharCode_append starts_ok_append starts_ok_newLine)

lemma starts_ok_writeString:
  "Buffer_inv b \<Longrightarrow> starts_ok b \<Longrightarrow> starts_ok (Buffer_writeString b s)"
  by (induction s arbitrary: b)
     (simp_all add: starts_ok_newLine starts_ok_writeCharCode inv_newLine inv_writeCharCode)

lemma starts_ok_apply: "Buffer_inv b \<Longrightarrow> starts_ok b \<Longrightarrow> starts_ok (Buffer_apply b x)"
proof (cases x)
  case (SetColor c)
  assume "starts_ok b"
  with SetColor show ?thesis by (simp add: starts_ok_def)
next
  case (SetStyle s)
  assume "starts_ok b"
  with SetStyle show ?thesis by (simp add: starts_ok_def)
qed (simp_all add: starts_ok_newLine starts_ok_writeCharCode starts_ok_writeString starts_ok_clear)

lemma reachable_starts_ok: "reachable b \<Longrightarrow> starts_ok b"
  by (induction rule: reachable.induct)
     (simp_all add: starts_ok_new starts_ok_apply reachable_inv)

text \<open>
  Claim C6, as amended. In every reachable buffer whose write index is below \<open>2^32\<close>,
  the recorded line starts \<open>starts[0]\<close>, \<dots>, \<open>starts[h - 1]\<close> are numbers that never
  decrease, and the write index is at least the last of them. They are not strictly
  increasing: an empty line records the same start twice.
\<close>

theorem line_starts_nondecreasing:
  assumes "reachable b" and "b_i b < 2 ^ 32"
  shows "sorted_wrt (\<lambda>s t. num_ge t s) (lineStarts b) \<and>
         num_ge (Num (b_i b)) (last (lineStarts b))"
proof -
  have inv: "Buffer_inv b" using assms(1) by (rule reachable_inv)
  have ok: "starts_ok b" using assms(1) by (rule reachable_starts_ok)
  have h: "1 \<le> b_h b" "b_h b \<le> int (alen (b_starts b))" using inv by (simp_all add: Buffer_inv_def)
  have get: "\<And>k. k < nat (b_h b) \<Longrightarrow> ta_get (b_starts b) (Num (int k)) = Num (uint (cell (b_starts b) k))"
    using h by (simp add: ta_get_def)
  have ls: "lineStarts b = map (\<lambda>k. Num (uint (cell (b_starts b) k))) [0..<nat (b_h b)]"
    unfolding lineStarts_def by (rule map_cong) (simp_all add: get)
  have mono: "\<And>j k. j \<le> k \<Longrightarrow> k < nat (b_h b) \<Longrightarrow> cell (b_starts b) j \<le> cell (b_starts b) k"
    and below: "\<And>k. k < nat (b_h b) \<Longrightarrow> uint (cell (b_starts b) k) \<le> b_i b"
    using ok assms(2) by (simp_all add: starts_ok_def)
  have "sorted_wrt (\<lambda>s t. num_ge t s) (lineStarts b)"
    unfolding ls using mono
    by (simp add: sorted_wrt_iff_nth_less word_le_def)
  moreover have "last (lineStarts b) = Num (uint (cell (b_starts b) (nat (b_h b) - 1)))"
    unfolding ls using h by (simp add: last_map last_upt)
  then have "num_ge (Num (b_i b)) (last (lineStarts b))"
    using below [of "nat (b_h b) - 1"] h by simp
  ultimately show ?thesis by simp
qed

text \<open>
  The theorem on the buffer that holds \<open>ab\<close>, an empty line and \<open>c\<close>: the line starts
  are \<open>0\<close>, \<open>2\<close>, \<open>2\<close>.
\<close>

theorem line_starts_nondecreasing_witness:
  "reachable (Buffer_run (Buffer_new None) [WriteString [97, 98, 10, 10, 99]]) \<and>
   b_i (Buffer_run (Buffer_new None) [WriteString [97, 98, 10, 10, 99]]) < 2 ^ 32 \<and>
   lineStarts (Buffer_run (Buffer_new None) [WriteString [97, 98, 10, 10, 99]]) = [Num 0, Num 2, Num 2] \<and>
   sorted_wrt (\<lambda>s t. num_ge t s) (lineStarts (Buffer_run (Buffer_new None) [WriteString [97, 98, 10, 10, 99]])) \<and>
   num_ge (Num (b_i (Buffer_run (Buffer_new None) [WriteString [97, 98, 10, 10, 99]])))
     (last (lineStarts (Buffer_run (Buffer_new None) [WriteString [97, 98, 10, 10, 99]])))"
proof -
  let ?b = "Buffer_run (Buffer_new None) [WriteString [97, 98, 10, 10, 99]]"
  have r: "reachable ?b" by (intro reachable_run reachable.constructed)
  have i: "b_i ?b = 3" by (simp add: buffer_eval)
  have h: "b_h ?b = 3" by (simp add: buffer_eval)
  have ls: "lineStarts ?b = [Num 0, Num 2, Num 2]"
    unfolding lineStarts_def h by (simp add: buffer_eval upt_rec)
  show ?thesis
    using line_starts_nondecreasing [OF r] r i ls by simp
qed

text \<open>
  The claim as stated fails: after one \<open>newLine()\<close> on a new buffer the line starts are
  \<open>0\<close>, \<open>0\<close>, which is not strictly increasing.
\<close>

theorem line_starts_not_strict:
  "\<not> sorted_wrt num_lt (lineStarts (Buffer_run (Buffer_new None) [NewLine]))"
proof -
  let ?b = "Buffer_run (Buffer_new None) [NewLine]"
  have h: "b_h ?b = 2" by (simp add: buffer_eval)
  have ls: "lineStarts ?b = [Num 0, Num 0]"
    unfolding lineStarts_def h by (simp add: buffer_eval upt_rec)
  show ?thesis unfolding ls by simp
qed

section \<open>The width of the buffer\<close>

lemma rowLength_Num:
  "Buffer_inv b \<Longrightarrow> rowLength b = Num (b_i b - uint (cell (b_starts b) (nat (b_h b - 1))))"
proof -
  assume inv: "Buffer_inv b"
  then have "0 \<le> b_h b - 1" "nat (b_h b - 1) < alen (b_starts b)"
    unfolding Buffer_inv_def by linarith+
  then show ?thesis by (simp add: rowLength_def ta_get_Num)
qed

lemma rowLength_append: "rowLength b = Num r \<Longrightarrow> rowLength (append_cell b x) = Num (r + 1)"
  by (cases "ta_get (b_starts b) (Num (b_h b - 1))") (simp_all add: rowLength_def)

lemma write_one:
  assumes "rowLength b = Num r" and "r < b_columns b"
  shows "rowLength (Buffer_writeCharCode b x) = Num (r + 1) \<and>
         b_previousMaxLineWidth (Buffer_writeCharCode b x) = b_previousMaxLineWidth b \<and>
         b_columns (Buffer_writeCharCode b x) = b_columns b"
  using assms by (simp add: writeCharCode_append rowLength_append)

lemma write_string_plain:
  assumes "rowLength b = Num r" and "r + int (length s) \<le> b_columns b"
    and "CharacterCode_NewLine \<notin> set s"
  shows "rowLength (Buffer_writeString b s) = Num (r + int (length s)) \<and>
         b_previousMaxLineWidth (Buffer_writeString b s) = b_previousMaxLineWidth b \<and>
         b_columns (Buffer_writeString b s) = b_columns b"
  using assms
proof (induction s arbitrary: b r)
  case Nil
  then show ?case by simp
next
  case (Cons c s)
  have c: "c \<noteq> CharacterCode_NewLine" using Cons.prems(3) by auto
  have lt: "r < b_columns b" using Cons.prems(2) by simp
  note one = write_one [OF Cons.prems(1) lt, of "Num c"]
  have "rowLength (Buffer_writeString (Buffer_writeCharCode b (Num c)) s) = Num (r + 1 + int (length s)) \<and>
        b_previousMaxLineWidth (Buffer_writeString (Buffer_writeCharCode b (Num c)) s) =
          b_previousMaxLineWidth (Buffer_writeCharCode b (Num c)) \<and>
        b_columns (Buffer_writeString (Buffer_writeCharCode b (Num c)) s) =
          b_columns (Buffer_writeCharCode b (Num c))"
    using one Cons.prems(2,3) by (intro Cons.IH) simp_all
  then show ?case using one c by (simp add: add.assoc)
qed

lemma run_plain:
  assumes "rowLength b = Num r"
    and "r + sum_list (map chars_written ops) \<le> b_columns b"
    and "\<forall>x\<in>set ops. no_newline x"
  shows "rowLength (Buffer_run b ops) = Num (r + sum_list (map chars_written ops)) \<and>
         b_previousMaxLineWidth (Buffer_run b ops) = b_previousMaxLineWidth b"
  using assms
proof (induction ops arbitrary: b r)
  case Nil
  then show ?case by simp
next
  case (Cons x ops)
  have nonneg: "0 \<le> sum_list (map chars_written ops)"
    by (rule sum_list_nonneg) (auto, case_tac xa, simp_all)
  have step: "rowLength (Buffer_apply b x) = Num (r + chars_written x) \<and>
        b_previousMaxLineWidth (Buffer_apply b x) = b_previousMaxLineWidth b \<and>
        b_columns (Buffer_apply b x) = b_columns b"
  proof (cases x)
    case (WriteCharCode c)
    then show ?thesis
      using write_one [OF Cons.prems(1), of "Num c"] Cons.prems(2) nonneg by simp
  next
    case (WriteString s)
    then show ?thesis
      using write_string_plain [OF Cons.prems(1), of s] Cons.prems(2,3) nonneg by simp
  qed (use Cons.prems(3) in simp_all)
  have "rowLength (Buffer_run (Buffer_apply b x) ops) =
          Num (r + chars_written x + sum_list (map chars_written ops)) \<and>
        b_previousMaxLineWidth (Buffer_run (Buffer_apply b x) ops) =
          b_previousMaxLineWidth (Buffer_apply b x)"
    using step Cons.prems(2,3) by (intro Cons.IH) (simp_all add: add.assoc)
  then show ?case using step by (simp add: add.assoc)
qed

text \<open>
  A new buffer, a cleared one and one that has just taken a line break have an empty
  current row, so the length of the current row counts the characters written since the
  last \<open>newLine()\<close> or \<open>clear()\<close>.
\<close>

lemma row_is_empty_after_break:
  "rowLength (Buffer_new c) = Num 0"
  "reachable b \<Longrightarrow> rowLength (Buffer_clear b) = Num 0"
  "reachable b \<Longrightarrow> b_i b < 2 ^ 32 \<Longrightarrow> rowLength (Buffer_newLine b) = Num 0"
proof -
  show "rowLength (Buffer_new c) = Num 0"
    by (simp add: rowLength_def ta_get_def Buffer_new_def)
  show "rowLength (Buffer_clear b) = Num 0" if "reachable b"
    using reachable_inv [OF that] by (simp add: rowLength_def ta_get_def Buffer_inv_def)
  show "rowLength (Buffer_newLine b) = Num 0" if r: "reachable b" and i: "b_i b < 2 ^ 32"
  proof -
    have inv: "Buffer_inv b" using r by (rule reachable_inv)
    then have inv1: "Buffer_inv (Buffer_newLine b)" by (rule inv_newLine)
    have "0 \<le> b_i b" "0 \<le> b_h b" using inv by (simp_all add: Buffer_inv_def)
    then have "uint (cell (b_starts (Buffer_newLine b)) (nat (b_h b))) = b_i b"
      using i by (simp add: newLine_cell [OF inv] uint_word_of_int)
    then show ?thesis by (simp add: rowLength_Num [OF inv1])
  qed
qed

text \<open>
  Claim C1, as amended. Let the current row hold \<open>r\<close> characters (those written since
  the last \<open>newLine()\<close> or \<open>clear()\<close>), and let a sequence of \<open>writeCharCode\<close> and
  \<open>writeString\<close> calls without newline codes write \<open>n\<close> characters, the row staying
  within the column cap (\<open>r + n \<le> columns\<close>). Then the row holds \<open>r + n\<close> characters
  and \<open>w\<close> is the maximum of \<open>previousMaxLineWidth\<close> and \<open>r + n\<close>: the number of
  characters written since the last \<open>newLine()\<close> or \<open>clear()\<close>, unless an earlier line
  was longer.
\<close>

theorem width_after_plain_writes:
  assumes "\<forall>x\<in>set ops. no_newline x"
    and "rowLength b = Num r"
    and "r + sum_list (map chars_written ops) \<le> b_columns b"
  shows "rowLength (Buffer_run b ops) = Num (r + sum_list (map chars_written ops)) \<and>
         Buffer_w (Buffer_run b ops) =
           Math_max (b_previousMaxLineWidth b) (Num (r + sum_list (map chars_written ops)))"
  using run_plain [OF assms(2,3,1)] by (simp add: Buffer_w_def)

text \<open>
  The theorem on a buffer that was used and cleared: three characters give the width \<open>3\<close>.
\<close>

theorem width_after_plain_writes_witness:
  "reachable (Buffer_clear (Buffer_writeString (Buffer_new None) [97, 98, 10, 99])) \<and>
   no_newline (WriteString [100, 101]) \<and> no_newline (WriteCharCode 102) \<and>
   rowLength (Buffer_clear (Buffer_writeString (Buffer_new None) [97, 98, 10, 99])) = Num 0 \<and>
   0 + sum_list (map chars_written [WriteString [100, 101], WriteCharCode 102])
     \<le> b_columns (Buffer_clear (Buffer_writeString (Buffer_new None) [97, 98, 10, 99])) \<and>
   Buffer_w (Buffer_run (Buffer_clear (Buffer_writeString (Buffer_new None) [97, 98, 10, 99]))
      [WriteString [100, 101], WriteCharCode 102]) = Num 3"
proof -
  let ?b = "Buffer_clear (Buffer_writeString (Buffer_new None) [97, 98, 10, 99])"
  have "reachable (Buffer_run (Buffer_new None) [WriteString [97, 98, 10, 99], Clear])"
    by (intro reachable_run reachable.constructed)
  then have r: "reachable ?b" by simp
  have nn: "\<forall>x\<in>set [WriteString [100, 101], WriteCharCode 102]. no_newline x"
    by (simp add: CharacterCode_NewLine_def)
  have rl: "rowLength ?b = Num 0"
    by (simp add: buffer_eval)
  have cols: "b_columns ?b = 1048576" "b_previousMaxLineWidth ?b = Num 0"
    by (simp_all add: buffer_eval)
  show ?thesis
    using width_after_plain_writes [OF nn rl] r nn rl cols by simp
qed

text \<open>
  The claim as stated fails twice. After the line \<open>abc\<close> and a \<open>newLine()\<close>, writing
  \<open>d\<close> leaves the width at \<open>3\<close>, not \<open>1\<close>; and with a cap of two columns, writing
  \<open>abc\<close> to a new buffer breaks the line after \<open>ab\<close> and gives the width \<open>2\<close>, not \<open>3\<close>.
\<close>

theorem width_is_not_the_count:
  "Buffer_w (Buffer_run (Buffer_newLine (Buffer_writeString (Buffer_new None) [97, 98, 99]))
      [WriteString [100]]) \<noteq> Num (sum_list (map chars_written [WriteString [100]])) \<and>
   Buffer_w (Buffer_run (Buffer_new (Some 2)) [WriteString [97, 98, 99]])
     \<noteq> Num (sum_list (map chars_written [WriteString [97, 98, 99]]))"
  by (simp add: Buffer_w_def buffer_eval)

section \<open>A cleared buffer against a new one\<close>

lemma same_rowLength:
  assumes "Buffer_inv a" and "Buffer_inv b" and "same_content a b"
  shows "rowLength a = rowLength b"
proof -
  have "nat (b_h a - 1) < nat (b_h a)" using assms(1) by (simp add: Buffer_inv_def)
  then have "cell (b_starts a) (nat (b_h a - 1)) = cell (b_starts b) (nat (b_h a - 1))"
    using assms(3) by (simp add: same_content_def)
  moreover have "b_h a = b_h b" "b_i a = b_i b" using assms(3) by (simp_all add: same_content_def)
  ultimately show ?thesis
    by (simp add: rowLength_Num [OF assms(1)] rowLength_Num [OF assms(2)])
qed

lemma same_newLine:
  assumes "Buffer_inv a" and "Buffer_inv b" and "same_content a b"
  shows "same_content (Buffer_newLine a) (Buffer_newLine b)"
proof -
  have eq: "b_h a = b_h b" "b_i a = b_i b" using assms(3) by (simp_all add: same_content_def)
  have h: "1 \<le> b_h b" using assms(2) by (simp add: Buffer_inv_def)
  have starts: "\<And>k. k < nat (b_h b + 1) \<Longrightarrow>
      cell (b_starts (Buffer_newLine a)) k = cell (b_starts (Buffer_newLine b)) k"
  proof -
    fix k assume "k < nat (b_h b + 1)"
    then have "k = nat (b_h b) \<or> k < nat (b_h b)" using h by linarith
    then show "cell (b_starts (Buffer_newLine a)) k = cell (b_starts (Buffer_newLine b)) k"
      using assms(3) eq
      by (subst newLine_cell [OF assms(1)], subst newLine_cell [OF assms(2)])
         (auto simp add: same_content_def)
  qed
  show ?thesis
    using assms(3) starts same_rowLength [OF assms]
    by (simp add: same_content_def)
qed

lemma append_cell_below:
  assumes "Buffer_inv b" and "k < nat (b_i b + 1)"
  shows "cell (b_buffer (append_cell b x)) k = (if k = nat (b_i b) then to_cell x else cell (b_buffer b) k)"
    and "cell (b_styles (append_cell b x)) k =
          (if k = nat (b_i b) then to_cell (Num (FontStyle_code (b_style b))) else cell (b_styles b) k)"
    and "cell (b_colors (append_cell b x)) k =
          (if k = nat (b_i b) then to_cell (Num (b_color b)) else cell (b_colors b) k)"
  using assms
  by (auto simp add: append_cell_cells cell_ta_grow Let_def Buffer_inv_def)

lemma same_append:
  assumes "Buffer_inv a" and "Buffer_inv b" and "same_content a b"
  shows "same_content (append_cell a x) (append_cell b x)"
proof -
  have eq: "b_i a = b_i b" "b_color a = b_color b" "b_style a = b_style b"
    using assms(3) by (simp_all add: same_content_def)
  have i: "0 \<le> b_i b" using assms(2) by (simp add: Buffer_inv_def)
  have cells: "\<And>k. k < nat (b_i b + 1) \<Longrightarrow>
      cell (b_buffer (append_cell a x)) k = cell (b_buffer (append_cell b x)) k \<and>
      cell (b_styles (append_cell a x)) k = cell (b_styles (append_cell b x)) k \<and>
      cell (b_colors (append_cell a x)) k = cell (b_colors (append_cell b x)) k"
  proof -
    fix k assume k: "k < nat (b_i b + 1)"
    then have ka: "k < nat (b_i a + 1)" by (simp add: eq)
    from k have "k = nat (b_i b) \<or> k < nat (b_i b)" using i by linarith
    then show "cell (b_buffer (append_cell a x)) k = cell (b_buffer (append_cell b x)) k \<and>
      cell (b_styles (append_cell a x)) k = cell (b_styles (append_cell b x)) k \<and>
      cell (b_colors (append_cell a x)) k = cell (b_colors (append_cell b x)) k"
      using assms(3) eq
      by (simp only: append_cell_below [OF assms(1) ka] append_cell_below [OF assms(2) k])
         (auto simp add: same_content_def)
  qed
  show ?thesis
    using assms(3) cells by (simp add: same_content_def)
qed

lemma same_writeCharCode:
  assumes "Buffer_inv a" and "Buffer_inv b" and "same_content a b"
  shows "same_content (Buffer_writeCharCode a x) (Buffer_writeCharCode b x)"
proof -
  have rl: "rowLength a = rowLength b" using assms by (rule same_rowLength)
  have cols: "b_columns a = b_columns b" using assms(3) by (simp add: same_content_def)
  show ?thesis
  proof (cases "num_ge (rowLength b) (Num (b_columns b))")
    case True
    have "same_content (append_cell (Buffer_newLine a) x) (append_cell (Buffer_newLine b) x)"
      using assms by (intro same_append same_newLine inv_newLine)
    then show ?thesis using True rl cols by (simp add: writeCharCode_append)
  next
    case False
    have "same_content (append_cell a x) (append_cell b x)"
      using assms by (rule same_append)
    then show ?thesis using False rl cols by (simp add: writeCharCode_append)
  qed
qed

lemma same_writeString:
  "Buffer_inv a \<Longrightarrow> Buffer_inv b \<Longrightarrow> same_content a b \<Longrightarrow>
     same_content (Buffer_writeString a s) (Buffer_writeString b s)"
proof (induction s arbitrary: a b)
  case Nil
  then show ?case by simp
next
  case (Cons c s)
  show ?case
  proof (cases "c = CharacterCode_NewLine")
    case True
    have "same_content (Buffer_writeString (Buffer_newLine a) s) (Buffer_writeString (Buffer_newLine b) s)"
      using Cons.prems by (intro Cons.IH same_newLine inv_newLine)
    then show ?thesis using True by simp
  next
    case False
    have "same_content (Buffer_writeString (Buffer_writeCharCode a (Num c)) s)
            (Buffer_writeString (Buffer_writeCharCode b (Num c)) s)"
      using Cons.prems by (intro Cons.IH same_writeCharCode inv_writeCharCode)
    then show ?thesis using False by simp
  qed
qed

lemma same_clear:
  "Buffer_inv a \<Longrightarrow> Buffer_inv b \<Longrightarrow> same_content a b \<Longrightarrow>
     same_content (Buffer_clear a) (Buffer_clear b)"
  by (simp add: same_content_def Buffer_inv_def)

lemma same_apply:
  assumes "Buffer_inv a" and "Buffer_inv b" and "same_content a b"
  shows "same_content (Buffer_apply a x) (Buffer_apply b x)"
proof (cases x)
  case (SetColor c)
  then show ?thesis using assms(3) by (simp add: same_content_def)
next
  case (SetStyle s)
  then show ?thesis using assms(3) by (simp add: same_content_def)
qed (use assms in \<open>simp_all add: same_newLine same_writeCharCode same_writeString same_clear\<close>)

lemma same_run:
  "Buffer_inv a \<Longrightarrow> Buffer_inv b \<Longrightarrow> same_content a b \<Longrightarrow>
     same_content (Buffer_run a xs) (Buffer_run b xs)"
proof (induction xs arbitrary: a b)
  case Nil
  then show ?case by simp
next
  case (Cons x xs)
  have "same_content (Buffer_run (Buffer_apply a x) xs) (Buffer_run (Buffer_apply b x) xs)"
    using Cons.prems by (intro Cons.IH same_apply inv_apply)
  then show ?case by simp
qed

lemma toInt32_range: "- (2 ^ 31) \<le> toInt32 v \<and> toInt32 v < 2 ^ 31"
  by (cases v) (simp_all add: toInt32_def)

lemma toInt32_id: "- (2 ^ 31) \<le> n \<Longrightarrow> n < 2 ^ 31 \<Longrightarrow> toInt32 (Num n) = n"
  by (simp add: toInt32_def)

lemma apply_columns: "b_columns (Buffer_apply b x) = b_columns b"
  by (cases x) simp_all

lemma reachable_columns: "reachable b \<Longrightarrow> toInt32 (Num (b_columns b)) = b_columns b"
proof (induction rule: reachable.induct)
  case (constructed columns)
  show ?case
    using toInt32_range by (simp add: Buffer_new_def toInt32_id)
next
  case (applied b x)
  then show ?case by (simp add: apply_columns)
qed

lemma agree_newLine [simp]:
  "agree ink (Buffer_newLine a) b = agree ink a b"
  "agree ink a (Buffer_newLine b) = agree ink a b"
  by (simp_all add: agree_def)

lemma agree_append:
  assumes "Buffer_inv a" and "Buffer_inv b" and "agree ink a b"
  shows "agree ink (append_cell a x) (append_cell b x)"
proof -
  have eq: "b_i a = b_i b" using assms(3) by (simp add: agree_def)
  have i: "0 \<le> b_i b" using assms(2) by (simp add: Buffer_inv_def)
  have chars: "cell (b_buffer (append_cell a x)) k = cell (b_buffer (append_cell b x)) k"
    if k: "k < nat (b_i b + 1)" for k
  proof -
    have ka: "k < nat (b_i a + 1)" using k by (simp add: eq)
    have "k = nat (b_i b) \<or> k < nat (b_i b)" using k i by linarith
    then show ?thesis
      using assms(3) eq
      by (simp only: append_cell_below [OF assms(1) ka] append_cell_below [OF assms(2) k])
         (auto simp add: agree_def)
  qed
  have paint: "cell (b_styles (append_cell a x)) k = cell (b_styles (append_cell b x)) k \<and>
      cell (b_colors (append_cell a x)) k = cell (b_colors (append_cell b x)) k"
    if k: "k < nat (b_i b + 1)" and "ink" for k
  proof -
    have ka: "k < nat (b_i a + 1)" using k by (simp add: eq)
    have "k = nat (b_i b) \<or> k < nat (b_i b)" using k i by linarith
    then show ?thesis
      using assms(3) eq \<open>ink\<close>
      by (simp only: append_cell_below [OF assms(1) ka] append_cell_below [OF assms(2) k])
         (auto simp add: agree_def)
  qed
  show ?thesis
    using assms(3) chars paint by (simp add: agree_def)
qed

lemma agree_writeCharCode:
  assumes "Buffer_inv a" and "Buffer_inv b" and "agree ink a b"
  shows "agree ink (Buffer_writeCharCode a x) (Buffer_writeCharCode b x)"
proof -
  let ?a = "if num_ge (rowLength a) (Num (b_columns a)) then Buffer_newLine a else a"
  let ?b = "if num_ge (rowLength b) (Num (b_columns b)) then Buffer_newLine b else b"
  have "Buffer_inv ?a" "Buffer_inv ?b" using assms(1,2) by (simp_all add: inv_newLine)
  moreover have "agree ink ?a ?b" using assms(3) by simp
  ultimately have "agree ink (append_cell ?a x) (append_cell ?b x)" by (rule agree_append)
  then show ?thesis by (simp only: writeCharCode_append)
qed

lemma agree_writeString:
  "Buffer_inv a \<Longrightarrow> Buffer_inv b \<Longrightarrow> agree ink a b \<Longrightarrow>
     agree ink (Buffer_writeString a s) (Buffer_writeString b s)"
proof (induction s arbitrary: a b)
  case Nil
  then show ?case by simp
next
  case (Cons c s)
  show ?case
  proof (cases "c = CharacterCode_NewLine")
    case True
    have "agree ink (Buffer_writeString (Buffer_newLine a) s) (Buffer_writeString (Buffer_newLine b) s)"
      using Cons.prems by (intro Cons.IH inv_newLine) simp_all
    then show ?thesis using True by simp
  next
    case False
    have "agree ink (Buffer_writeString (Buffer_writeCharCode a (Num c)) s)
            (Buffer_writeString (Buffer_writeCharCode b (Num c)) s)"
      using Cons.prems by (intro Cons.IH agree_writeCharCode inv_writeCharCode)
    then show ?thesis using False by simp
  qed
qed

lemma agree_apply:
  assumes "Buffer_inv a" and "Buffer_inv b" and "agree ink a b"
  shows "agree ink (Buffer_apply a x) (Buffer_apply b x)"
proof (cases x)
  case (WriteCharCode c)
  then show ?thesis using assms by (simp add: agree_writeCharCode)
next
  case (WriteString s)
  then show ?thesis using assms by (simp add: agree_writeString)
next
  case NewLine
  then show ?thesis using assms(3) by simp
next
  case Clear
  then show ?thesis using assms(3) by (simp add: agree_def)
next
  case (SetColor c)
  then show ?thesis using assms(3) by (simp add: agree_def)
next
  case (SetStyle s)
  then show ?thesis using assms(3) by (simp add: agree_def)
qed

lemma agree_run:
  "Buffer_inv a \<Longrightarrow> Buffer_inv b \<Longrightarrow> agree ink a b \<Longrightarrow>
     agree ink (Buffer_run a xs) (Buffer_run b xs)"
proof (induction xs arbitrary: a b)
  case Nil
  then show ?case by simp
next
  case (Cons x xs)
  have "agree ink (Buffer_run (Buffer_apply a x) xs) (Buffer_run (Buffer_apply b x) xs)"
    using Cons.prems by (intro Cons.IH agree_apply inv_apply)
  then show ?case by simp
qed

lemma inv_fresh_inked: "Buffer_inv (fresh_inked c b)"
  by (simp add: fresh_inked_def Buffer_inv_def Buffer_new_def)

lemma agree_clear_fresh:
  "agree False (Buffer_clear b) (Buffer_new c)"
  "agree True (Buffer_clear b) (fresh_inked c b)"
  by (simp_all add: agree_def fresh_inked_def Buffer_new_def)

lemma same_clear_inked:
  assumes "reachable b"
  shows "same_content (Buffer_clear b) (fresh_inked (Some (b_columns b)) b)"
  using reachable_inv [OF assms] reachable_columns [OF assms]
  by (simp add: same_content_def fresh_inked_def Buffer_new_def Buffer_inv_def)

lemma fresh_inked_default:
  "b_color b = 65535 \<Longrightarrow> b_style b = Normal \<Longrightarrow> fresh_inked c b = Buffer_new c"
  by (simp add: fresh_inked_def Buffer_new_def)

lemma lineStarts_cong:
  assumes "Buffer_inv a" and "Buffer_inv b" and "same_content a b"
  shows "lineStarts a = lineStarts b"
proof -
  have eq: "b_h a = b_h b" using assms(3) by (simp add: same_content_def)
  have ha: "b_h a \<le> int (alen (b_starts a))" "b_h b \<le> int (alen (b_starts b))"
    using assms(1,2) by (simp_all add: Buffer_inv_def)
  show ?thesis
    unfolding lineStarts_def eq [symmetric]
  proof (rule map_cong [OF refl])
    fix j assume "j \<in> set [0..<nat (b_h a)]"
    then have j: "j < nat (b_h a)" by simp
    then have "cell (b_starts a) j = cell (b_starts b) j"
      using assms(3) by (simp add: same_content_def)
    moreover have "j < alen (b_starts a)" "j < alen (b_starts b)"
      using j ha eq by linarith+
    ultimately show "ta_get (b_starts a) (Num (int j)) = ta_get (b_starts b) (Num (int j))"
      by (simp add: ta_get_def)
  qed
qed

lemma read_below:
  assumes "Buffer_inv a" and "0 \<le> k" and "k < b_i a"
  shows "ta_get (b_buffer a) (Num k) = Num (uint (cell (b_buffer a) (nat k)))"
    and "ta_get (b_styles a) (Num k) = Num (uint (cell (b_styles a) (nat k)))"
    and "ta_get (b_colors a) (Num k) = Num (uint (cell (b_colors a) (nat k)))"
proof -
  have "nat k < alen (b_buffer a)" using assms unfolding Buffer_inv_def by linarith
  then have "nat k < alen (b_buffer a)" "nat k < alen (b_styles a)" "nat k < alen (b_colors a)"
    using assms(1) by (simp_all add: Buffer_inv_def)
  then show "ta_get (b_buffer a) (Num k) = Num (uint (cell (b_buffer a) (nat k)))"
    and "ta_get (b_styles a) (Num k) = Num (uint (cell (b_styles a) (nat k)))"
    and "ta_get (b_colors a) (Num k) = Num (uint (cell (b_colors a) (nat k)))"
    using assms(2) by (simp_all add: ta_get_Num)
qed

text \<open>
  Claim C4, as amended. Let \<open>b\<close> be a used buffer and \<open>S\<close> a sequence of calls. Running
  \<open>S\<close> after \<open>clear()\<close> gives the same write index, and the same character at every index
  below it, as running \<open>S\<close> on a freshly constructed buffer (of any column cap); it gives
  the same colours and styles below the write index as running \<open>S\<close> on a freshly
  constructed buffer whose colour and style were set to those of \<open>b\<close>, which is the
  freshly constructed buffer itself when \<open>b\<close> has the constructor's colour and style;
  and with the column cap of \<open>b\<close> it gives the same rows and line starts. All these reads
  give numbers. The capacity that \<open>clear()\<close> keeps is not observable; the colour and
  the style that it keeps are.
\<close>

theorem clear_then_write_as_fresh:
  assumes "reachable b"
  shows "b_i (Buffer_run (Buffer_clear b) S) = b_i (Buffer_run (Buffer_new c) S) \<and>
         b_i (Buffer_run (Buffer_clear b) S) = b_i (Buffer_run (fresh_inked c b) S) \<and>
         b_h (Buffer_run (Buffer_clear b) S) =
           b_h (Buffer_run (fresh_inked (Some (b_columns b)) b) S) \<and>
         lineStarts (Buffer_run (Buffer_clear b) S) =
           lineStarts (Buffer_run (fresh_inked (Some (b_columns b)) b) S) \<and>
         (b_color b = 65535 \<and> b_style b = Normal \<longrightarrow> fresh_inked c b = Buffer_new c) \<and>
         (\<forall>k. 0 \<le> k \<and> k < b_i (Buffer_run (Buffer_clear b) S) \<longrightarrow>
            ta_get (b_buffer (Buffer_run (Buffer_clear b) S)) (Num k) \<noteq> NaN \<and>
            ta_get (b_colors (Buffer_run (Buffer_clear b) S)) (Num k) \<noteq> NaN \<and>
            ta_get (b_styles (Buffer_run (Buffer_clear b) S)) (Num k) \<noteq> NaN \<and>
            ta_get (b_buffer (Buffer_run (Buffer_clear b) S)) (Num k) =
              ta_get (b_buffer (Buffer_run (Buffer_new c) S)) (Num k) \<and>
            ta_get (b_buffer (Buffer_run (Buffer_clear b) S)) (Num k) =
              ta_get (b_buffer (Buffer_run (fresh_inked c b) S)) (Num k) \<and>
            ta_get (b_colors (Buffer_run (Buffer_clear b) S)) (Num k) =
              ta_get (b_colors (Buffer_run (fresh_inked c b) S)) (Num k) \<and>
            ta_get (b_styles (Buffer_run (Buffer_clear b) S)) (Num k) =
              ta_get (b_styles (Buffer_run (fresh_inked c b) S)) (Num k))"
proof -
  let ?a = "Buffer_run (Buffer_clear b) S"
  let ?p = "Buffer_run (Buffer_new c) S"
  let ?f = "Buffer_run (fresh_inked c b) S"
  let ?g = "Buffer_run (fresh_inked (Some (b_columns b)) b) S"
  have inv_a0: "Buffer_inv (Buffer_clear b)" using assms by (intro inv_clear reachable_inv)
  have inv_a: "Buffer_inv ?a" using inv_a0 by (rule inv_run)
  have inv_p: "Buffer_inv ?p" using inv_new by (rule inv_run)
  have inv_f: "Buffer_inv ?f" using inv_fresh_inked by (rule inv_run)
  have inv_g: "Buffer_inv ?g" using inv_fresh_inked by (rule inv_run)
  have ap: "agree False ?a ?p"
    using inv_a0 inv_new agree_clear_fresh(1) by (rule agree_run)
  have af: "agree True ?a ?f"
    using inv_a0 inv_fresh_inked agree_clear_fresh(2) by (rule agree_run)
  have ag: "same_content ?a ?g"
    using inv_a0 inv_fresh_inked same_clear_inked [OF assms] by (rule same_run)
  have i: "b_i ?a = b_i ?p" "b_i ?a = b_i ?f"
    using ap af by (simp_all add: agree_def)
  have h: "b_h ?a = b_h ?g" using ag by (simp add: same_content_def)
  have ls: "lineStarts ?a = lineStarts ?g"
    using inv_a inv_g ag by (rule lineStarts_cong)
  have cells: "ta_get (b_buffer ?a) (Num k) \<noteq> NaN \<and>
            ta_get (b_colors ?a) (Num k) \<noteq> NaN \<and>
            ta_get (b_styles ?a) (Num k) \<noteq> NaN \<and>
            ta_get (b_buffer ?a) (Num k) = ta_get (b_buffer ?p) (Num k) \<and>
            ta_get (b_buffer ?a) (Num k) = ta_get (b_buffer ?f) (Num k) \<and>
            ta_get (b_colors ?a) (Num k) = ta_get (b_colors ?f) (Num k) \<and>
            ta_get (b_styles ?a) (Num k) = ta_get (b_styles ?f) (Num k)"
    if k: "0 \<le> k \<and> k < b_i ?a" for k
  proof -
    have k0: "0 \<le> k" and ka: "k < b_i ?a" and kp: "k < b_i ?p" and kf: "k < b_i ?f"
      using k i by simp_all
    have n: "nat k < nat (b_i ?a)" using k by simp
    have "cell (b_buffer ?a) (nat k) = cell (b_buffer ?p) (nat k)"
        "cell (b_buffer ?a) (nat k) = cell (b_buffer ?f) (nat k)"
        "cell (b_colors ?a) (nat k) = cell (b_colors ?f) (nat k)"
        "cell (b_styles ?a) (nat k) = cell (b_styles ?f) (nat k)"
      using ap af n by (simp_all add: agree_def)
    then show ?thesis
      by (simp add: read_below [OF inv_a k0 ka] read_below [OF inv_p k0 kp]
            read_below [OF inv_f k0 kf])
  qed
  have all: "\<forall>k. 0 \<le> k \<and> k < b_i ?a \<longrightarrow>
            ta_get (b_buffer ?a) (Num k) \<noteq> NaN \<and>
            ta_get (b_colors ?a) (Num k) \<noteq> NaN \<and>
            ta_get (b_styles ?a) (Num k) \<noteq> NaN \<and>
            ta_get (b_buffer ?a) (Num k) = ta_get (b_buffer ?p) (Num k) \<and>
            ta_get (b_buffer ?a) (Num k) = ta_get (b_buffer ?f) (Num k) \<and>
            ta_get (b_colors ?a) (Num k) = ta_get (b_colors ?f) (Num k) \<and>
            ta_get (b_styles ?a) (Num k) = ta_get (b_styles ?f) (Num k)"
    using cells by blast
  have dflt: "b_color b = 65535 \<and> b_style b = Normal \<longrightarrow> fresh_inked c b = Buffer_new c"
    by (simp add: fresh_inked_default)
  show ?thesis
    by (intro conjI) (rule i h ls dflt all)+
qed

text \<open>
  The theorem on a buffer used with colour \<open>5\<close>: after \<open>clear()\<close>, the sequence \<open>d\<close>,
  line break, \<open>e\<close> leaves the write index at \<open>2\<close> and the line starts \<open>0\<close>, \<open>1\<close>, with
  \<open>101\<close> at index \<open>1\<close> as on a new buffer, and colour \<open>5\<close> there as on a new buffer
  given that colour; and a buffer used with the constructor's colour and style is
  compared with the new buffer itself.
\<close>

theorem clear_then_write_as_fresh_witness:
  "reachable (Buffer_run (Buffer_new None) [SetColor 5, WriteString [97, 98, 99]]) \<and>
   b_i (Buffer_run (Buffer_new None) [WriteString [100, 10, 101]]) = 2 \<and>
   ta_get (b_buffer (Buffer_run (Buffer_new None) [WriteString [100, 10, 101]])) (Num 1) =
     Num 101 \<and>
   ta_get (b_colors (Buffer_run (fresh_inked None (Buffer_run (Buffer_new None)
          [SetColor 5, WriteString [97, 98, 99]])) [WriteString [100, 10, 101]])) (Num 1) = Num 5 \<and>
   ta_get (b_styles (Buffer_run (fresh_inked None (Buffer_run (Buffer_new None)
          [SetColor 5, WriteString [97, 98, 99]])) [WriteString [100, 10, 101]])) (Num 1) = Num 0 \<and>
   lineStarts (Buffer_run (fresh_inked (Some (b_columns (Buffer_run (Buffer_new None)
          [SetColor 5, WriteString [97, 98, 99]]))) (Buffer_run (Buffer_new None)
          [SetColor 5, WriteString [97, 98, 99]])) [WriteString [100, 10, 101]]) = [Num 0, Num 1] \<and>
   reachable (Buffer_run (Buffer_new None) [WriteString [97]]) \<and>
   b_color (Buffer_run (Buffer_new None) [WriteString [97]]) = 65535 \<and>
   b_style (Buffer_run (Buffer_new None) [WriteString [97]]) = Normal \<and>
   fresh_inked None (Buffer_run (Buffer_new None) [WriteString [97]]) = Buffer_new None"
proof -
  define b where "b = Buffer_run (Buffer_new None) [SetColor 5, WriteString [97, 98, 99]]"
  define a where "a = Buffer_run (Buffer_clear b) [WriteString [100, 10, 101]]"
  define b' where "b' = Buffer_run (Buffer_new None) [WriteString [97]]"
  have r: "reachable b" "reachable b'"
    unfolding b_def b'_def by (intro reachable_run reachable.constructed)+
  have i: "b_i a = 2" and h: "b_h a = 2"
    unfolding a_def b_def by (simp_all add: buffer_eval)
  have c: "ta_get (b_buffer a) (Num 1) = Num 101" "ta_get (b_colors a) (Num 1) = Num 5"
      "ta_get (b_styles a) (Num 1) = Num 0"
    unfolding a_def b_def by (simp_all add: buffer_eval append_cell_cells)
  have ls: "lineStarts a = [Num 0, Num 1]"
    unfolding lineStarts_def h unfolding a_def b_def by (simp add: buffer_eval upt_rec)
  have d: "b_color b' = 65535" "b_style b' = Normal"
    unfolding b'_def by (simp_all add: Buffer_new_def)
  note t = clear_then_write_as_fresh [OF r(1), of "[WriteString [100, 10, 101]]" None,
      folded a_def]
  note t' = clear_then_write_as_fresh [OF r(2), of "[]" None]
  have "b_i (Buffer_run (Buffer_new None) [WriteString [100, 10, 101]]) = 2"
    using t i by simp
  moreover have "ta_get (b_buffer (Buffer_run (Buffer_new None) [WriteString [100, 10, 101]]))
      (Num 1) = Num 101"
    "ta_get (b_colors (Buffer_run (fresh_inked None b) [WriteString [100, 10, 101]])) (Num 1) =
      Num 5"
    "ta_get (b_styles (Buffer_run (fresh_inked None b) [WriteString [100, 10, 101]])) (Num 1) =
      Num 0"
    using t i c by auto
  moreover have "lineStarts (Buffer_run (fresh_inked (Some (b_columns b)) b)
      [WriteString [100, 10, 101]]) = [Num 0, Num 1]"
    using t ls by simp
  moreover have "fresh_inked None b' = Buffer_new None"
    using t' d by blast
  ultimately show ?thesis
    using r d unfolding b_def b'_def by blast
qed

text \<open>
  The claim as stated fails: on a buffer whose colour was set to \<open>5\<close>, a character written
  after \<open>clear()\<close> is stored with colour \<open>5\<close>; on a freshly constructed buffer it is
  stored with \<open>0xFFFF\<close>.
\<close>

theorem clear_keeps_the_colour_of_the_used_buffer:
  "ta_get (b_colors (Buffer_run (Buffer_clear (Buffer_run (Buffer_new None)
       [SetColor 5, WriteCharCode 97])) [WriteCharCode 98])) (Num 0)
   \<noteq> ta_get (b_colors (Buffer_run (Buffer_new None) [WriteCharCode 98])) (Num 0)"
  by (simp add: buffer_eval append_cell_cells)

section \<open>The version counter\<close>

text \<open>
  Claim C8, as amended. \<open>newLine()\<close> raises the version by one and \<open>writeCharCode()\<close>
  by one, or by two when it first breaks the line at the column cap, so both leave it
  strictly greater than before; \<open>clear()\<close> sets it back to \<open>0\<close>. The counter grows
  between two calls of \<open>clear()\<close> only.
\<close>

theorem version_after_mutation:
  "b_version (Buffer_newLine b) = b_version b + 1 \<and>
   b_version (Buffer_writeCharCode b x) =
     b_version b + (if num_ge (rowLength b) (Num (b_columns b)) then 2 else 1) \<and>
   b_version b < b_version (Buffer_writeCharCode b x) \<and>
   b_version (Buffer_clear b) = 0"
  by (simp add: writeCharCode_append Buffer_clear_def)

text \<open>
  The claim as stated fails for \<open>clear()\<close>: after one character the version is \<open>1\<close>,
  and \<open>clear()\<close> does not leave it greater.
\<close>

theorem version_clear_not_greater:
  "\<not> b_version (Buffer_writeCharCode (Buffer_new None) (Num 97))
       < b_version (Buffer_clear (Buffer_writeCharCode (Buffer_new None) (Num 97)))"
  by (simp add: writeCharCode_append Buffer_new_def Buffer_clear_def)

section \<open>The cursor of the screen\<close>

lemma clamp_Num: "clamp (Num v) (Num a) (Num b) = Num (max a (min b v))"
  by (simp add: clamp_def)

lemma cursor_in_moveTo:
  "0 \<le> s_w s \<Longrightarrow> 0 \<le> s_h s \<Longrightarrow> cursor_in (Screen_moveTo s x y)"
  by (simp add: cursor_in_def Screen_moveTo_def clamp_Num)

lemma writeCharCode_size [simp]:
  "s_w (Screen_writeCharCode s c) = s_w s"
  "s_h (Screen_writeCharCode s c) = s_h s"
  "s_y (Screen_writeCharCode s c) = s_y s"
  "s_tileColumns (Screen_writeCharCode s c) = s_tileColumns s"
  "alen (s_screenBuffer (Screen_writeCharCode s c)) = alen (s_screenBuffer s)"
  by (simp_all add: Screen_writeCharCode_def Screen_invalidate_def store_cell_def Let_def)

lemma writeCharCode_x:
  "s_x (Screen_writeCharCode s c) =
     (if cursor_outside s then s_x s else num_add (s_x s) (Num 1))"
  by (cases "s_x s"; cases "s_y s")
     (auto simp add: Screen_writeCharCode_def Screen_invalidate_def cursor_outside_def Let_def)

lemma writeCharCode_outside: "cursor_outside s \<Longrightarrow> Screen_writeCharCode s c = s"
  by (simp add: Screen_writeCharCode_def cursor_outside_def)

lemma cursor_in_writeCharCode: "cursor_in s \<Longrightarrow> cursor_in (Screen_writeCharCode s c)"
  by (cases "s_x s"; cases "s_y s")
     (auto simp add: cursor_in_def writeCharCode_x cursor_outside_def)

lemma cursor_in_writeString: "cursor_in s \<Longrightarrow> cursor_in (Screen_writeString s cs)"
  by (induction cs arbitrary: s) (simp_all add: cursor_in_writeCharCode)

lemma writeString_size [simp]:
  "s_w (Screen_writeString s cs) = s_w s"
  "s_h (Screen_writeString s cs) = s_h s"
  "alen (s_screenBuffer (Screen_writeString s cs)) = alen (s_screenBuffer s)"
  by (induction cs arbitrary: s) simp_all

lemmas screen_eval = Screen_sized_def Screen_moveTo_def clamp_Num toInt32_def
  cursor_in_def cursor_outside_def

text \<open>
  Claim C9, as amended. On a screen with \<open>w, h \<ge> 0\<close>, \<open>moveTo\<close> leaves the cursor in
  \<open>[0, w] \<times> [0, h]\<close>, and \<open>writeCharCode\<close> and \<open>writeString\<close> keep it there: the
  bounds are included, the cursor may rest one past the last column or row. A
  \<open>writeCharCode\<close> with the cursor outside \<open>[0, w) \<times> [0, h)\<close> changes nothing at
  all, and no \<open>writeCharCode\<close> changes the size of the grid or of the tile map.
\<close>

theorem cursor_stays_on_or_next_to_the_grid:
  assumes "0 \<le> s_w s" and "0 \<le> s_h s"
  shows "cursor_in (Screen_moveTo s x y) \<and>
         (cursor_in s \<longrightarrow>
            cursor_in (Screen_writeCharCode s c) \<and> cursor_in (Screen_writeString s cs)) \<and>
         (cursor_outside s \<longrightarrow> Screen_writeCharCode s c = s) \<and>
         s_w (Screen_writeCharCode s c) = s_w s \<and> s_h (Screen_writeCharCode s c) = s_h s \<and>
         alen (s_screenBuffer (Screen_writeCharCode s c)) = alen (s_screenBuffer s)"
  using assms
  by (simp add: cursor_in_moveTo cursor_in_writeCharCode cursor_in_writeString
        writeCharCode_outside)

text \<open>
  The theorem on a screen of four by four cells: \<open>moveTo(9, 2)\<close> puts the cursor at
  column \<open>4\<close>, where a character is dropped.
\<close>

theorem cursor_stays_on_or_next_to_the_grid_witness:
  "0 \<le> s_w (Screen_moveTo (Screen_sized 4 4 16) (Num 9) (Num 2)) \<and>
   0 \<le> s_h (Screen_moveTo (Screen_sized 4 4 16) (Num 9) (Num 2)) \<and>
   s_x (Screen_moveTo (Screen_sized 4 4 16) (Num 9) (Num 2)) = Num 4 \<and>
   cursor_in (Screen_moveTo (Screen_sized 4 4 16) (Num 9) (Num 2)) \<and>
   cursor_outside (Screen_moveTo (Screen_sized 4 4 16) (Num 9) (Num 2)) \<and>
   cursor_in (Screen_writeString (Screen_moveTo (Screen_sized 4 4 16) (Num 9) (Num 2)) [65]) \<and>
   Screen_writeCharCode (Screen_moveTo (Screen_sized 4 4 16) (Num 9) (Num 2)) (Num 65) =
     Screen_moveTo (Screen_sized 4 4 16) (Num 9) (Num 2)"
proof -
  let ?s = "Screen_moveTo (Screen_sized 4 4 16) (Num 9) (Num 2)"
  have size: "s_w ?s = 4" "s_h ?s = 4" "s_x ?s = Num 4" "s_y ?s = Num 2"
    by (simp_all add: screen_eval)
  have out: "cursor_outside ?s" and inside: "cursor_in ?s"
    by (simp_all add: cursor_outside_def cursor_in_def size)
  show ?thesis
    using cursor_stays_on_or_next_to_the_grid [of ?s "Num 9" "Num 2" "Num 65" "[65]"]
      size out inside
    by simp
qed

text \<open>
  The claim as stated fails: \<open>moveTo(4, 0)\<close> on four columns leaves the cursor at column
  \<open>4\<close>, and so does writing four characters from column \<open>0\<close>; \<open>4\<close> is not in \<open>[0, 4)\<close>.
\<close>

theorem cursor_reaches_the_column_count:
  "\<not> num_lt (s_x (Screen_moveTo (Screen_sized 4 4 16) (Num 4) (Num 0)))
       (Num (s_w (Screen_moveTo (Screen_sized 4 4 16) (Num 4) (Num 0)))) \<and>
   \<not> num_lt (s_x (Screen_writeString (Screen_sized 4 4 16) [65, 66, 67, 68]))
       (Num (s_w (Screen_writeString (Screen_sized 4 4 16) [65, 66, 67, 68])))"
  by (simp add: screen_eval writeCharCode_x)

section \<open>Scrolling the view\<close>

lemma reachable_w_Num:
  assumes "reachable b"
  shows "\<exists>w. Buffer_w b = Num w"
proof -
  have inv: "Buffer_inv b" using assms by (rule reachable_inv)
  then obtain m where "b_previousMaxLineWidth b = Num m"
    by (cases "b_previousMaxLineWidth b") (simp_all add: Buffer_inv_def)
  then show ?thesis
    by (simp add: Buffer_w_def rowLength_Num [OF inv])
qed

text \<open>
  Claim C3. For a reachable buffer and a view whose offsets are numbers, \<open>scroll(dx, dy)\<close>
  with any real deltas leaves \<open>y\<close> in \<open>[0, max(0, buffer.h - screen.h)]\<close> and \<open>x\<close> in
  \<open>[0, max(0, buffer.w - screen.w)]\<close>, wherever the offsets were before.
\<close>

theorem scroll_stays_in_range:
  assumes "reachable buffer" and "v_x v \<noteq> NaN" and "v_y v \<noteq> NaN"
  shows "num_ge (v_y (View_scroll v screen buffer (Num dx) (Num dy))) (Num 0) \<and>
         num_ge (Num (max 0 (of_int (b_h buffer - s_h screen))))
           (v_y (View_scroll v screen buffer (Num dx) (Num dy))) \<and>
         num_ge (v_x (View_scroll v screen buffer (Num dx) (Num dy))) (Num 0) \<and>
         num_ge (Math_max (Num 0)
             (num_sub (map_number of_int (Buffer_w buffer)) (Num (of_int (s_w screen)))))
           (v_x (View_scroll v screen buffer (Num dx) (Num dy)))"
proof -
  obtain w where w: "Buffer_w buffer = Num w"
    using reachable_w_Num [OF assms(1)] by blast
  obtain x0 where x0: "v_x v = Num x0" using assms(2) by (cases "v_x v") simp_all
  obtain y0 where y0: "v_y v = Num y0" using assms(3) by (cases "v_y v") simp_all
  show ?thesis
    by (simp add: View_scroll_def Let_def clamp_Num w x0 y0 min_le_iff_disj le_max_iff_disj)
       linarith
qed

text \<open>
  The theorem on a buffer of two rows and width three, and a screen of two columns and
  one row: a scroll by \<open>(1000, -3.5)\<close> from the origin ends at \<open>(1, 0)\<close>, a scroll by
  \<open>(1/40, 1/2)\<close> at \<open>y = 1/2\<close>, within \<open>[0, 1]\<close>.
\<close>

theorem scroll_stays_in_range_witness:
  "reachable (Buffer_run (Buffer_new None) [WriteString [97, 98, 10, 99, 100, 101]]) \<and>
   v_x View_new \<noteq> NaN \<and> v_y View_new \<noteq> NaN \<and>
   v_y (View_scroll View_new (Screen_sized 2 1 16)
         (Buffer_run (Buffer_new None) [WriteString [97, 98, 10, 99, 100, 101]])
         (Num 1000) (Num (- 7 / 2))) = Num 0 \<and>
   v_x (View_scroll View_new (Screen_sized 2 1 16)
         (Buffer_run (Buffer_new None) [WriteString [97, 98, 10, 99, 100, 101]])
         (Num 1000) (Num (- 7 / 2))) = Num 1 \<and>
   v_y (View_scroll View_new (Screen_sized 2 1 16)
         (Buffer_run (Buffer_new None) [WriteString [97, 98, 10, 99, 100, 101]])
         (Num (1 / 40)) (Num (1 / 2))) = Num (1 / 2) \<and>
   num_ge (Num (max 0 (of_int (b_h (Buffer_run (Buffer_new None)
         [WriteString [97, 98, 10, 99, 100, 101]]) - s_h (Screen_sized 2 1 16)))))
     (v_y (View_scroll View_new (Screen_sized 2 1 16)
         (Buffer_run (Buffer_new None) [WriteString [97, 98, 10, 99, 100, 101]])
         (Num (1 / 40)) (Num (1 / 2))))"
proof -
  define b where "b = Buffer_run (Buffer_new None) [WriteString [97, 98, 10, 99, 100, 101]]"
  define s where "s = Screen_sized 2 1 16"
  have r: "reachable b" unfolding b_def by (intro reachable_run reachable.constructed)
  have st: "b_h b = 2" "Buffer_w b = Num 3"
    unfolding b_def by (simp_all add: Buffer_w_def buffer_eval)
  have scr: "s_h s = 1" "s_w s = 2"
    unfolding s_def by (simp_all add: Screen_sized_def)
  have v: "v_x View_new = Num 0" "v_y View_new = Num 0" by (simp_all add: View_new_def)
  have a: "v_y (View_scroll View_new s b (Num 1000) (Num (- 7 / 2))) = Num 0"
     "v_x (View_scroll View_new s b (Num 1000) (Num (- 7 / 2))) = Num 1"
     "v_y (View_scroll View_new s b (Num (1 / 40)) (Num (1 / 2))) = Num (1 / 2)"
    by (simp_all add: View_scroll_def Let_def clamp_Num st scr v)
  show ?thesis
    unfolding b_def [symmetric] s_def [symmetric]
    using scroll_stays_in_range [OF r, of View_new s "1 / 40" "1 / 2"] r a v
    by (simp add: st scr)
qed

section \<open>Copying the buffer to the screen\<close>

lemma loop_range_nonpos: "nonpos l \<Longrightarrow> loop_range l = []"
  by (cases l) (simp_all add: nonpos_def loop_range_def)

lemma nonpos_min1: "nonpos a \<Longrightarrow> nonpos (Math_min a b)"
  by (cases a; cases b) (simp_all add: nonpos_def)

lemma nonpos_min2: "nonpos b \<Longrightarrow> nonpos (Math_min a b)"
  by (cases a; cases b) (simp_all add: nonpos_def)

lemma nonpos_clamp: "t \<le> 0 \<Longrightarrow> nonpos (clamp (Num t) (Num 0) m)"
  by (cases m) (simp_all add: nonpos_def clamp_def)

lemma nonpos_room: "num_ge c (Num n) \<Longrightarrow> nonpos (num_sub (Num n) c)"
  by (cases c) (simp_all add: nonpos_def)

lemma rows_nonpos:
  "nonpos w \<Longrightarrow> writeBuffer_rows scr buffer sx sy dx dy w ys = scr"
  by (induction ys) (simp_all add: Let_def loop_range_nonpos nonpos_min2)

lemma width_of_empty:
  assumes "Buffer_w buffer = Num 0"
  shows "nonpos (clamp (Num t) (Num 0)
           (num_sub (Buffer_w buffer) (clamp (Num u) (Num 0) (num_sub (Buffer_w buffer) (Num 1)))))"
  by (simp add: assms clamp_Num nonpos_def)

lemma alen_store_cell [simp]: "alen (store_cell a i c tc color) = alen a"
  by (simp add: store_cell_def Let_def)

lemma store_cell_reads:
  assumes "0 \<le> i" and "nat (i + 3) < alen a"
  shows "map (\<lambda>j. ta_get (store_cell a (Num i) c tc color) (Num (i + j))) [0, 1, 2, 3] =
           tile_bytes c tc color"
  using assms
  by (simp add: store_cell_def Let_def tile_bytes_def ta_get_def cell_ta_set nat_add_distrib)

lemma ta_get_set_other:
  "k \<noteq> j \<Longrightarrow> ta_get (ta_set a (Num j) v) (Num k) = ta_get a (Num k)"
  by (auto simp add: ta_get_def ta_set_def)

lemma store_cell_other:
  assumes "k < i \<or> i + 3 < k"
  shows "ta_get (store_cell a (Num i) c tc color) (Num k) = ta_get a (Num k)"
proof -
  have "k \<noteq> i" "k \<noteq> i + 1" "k \<noteq> i + 2" "k \<noteq> i + 3"
    using assms by auto
  then show ?thesis
    by (simp add: store_cell_def Let_def ta_get_set_other)
qed

lemma putChar_fields [simp]:
  "s_w (Screen_putChar s c x y color style) = s_w s"
  "s_h (Screen_putChar s c x y color style) = s_h s"
  "s_tileColumns (Screen_putChar s c x y color style) = s_tileColumns s"
  "alen (s_screenBuffer (Screen_putChar s c x y color style)) = alen (s_screenBuffer s)"
  by (simp_all add: Screen_putChar_def Let_def)

lemma putChar_buffer:
  assumes "0 \<le> x" and "x \<le> s_w s" and "0 \<le> y" and "y \<le> s_h s"
    and "s_w s \<le> 2 ^ 31" and "s_h s \<le> 2 ^ 31" and "x < 2 ^ 31" and "y < 2 ^ 31"
  shows "s_screenBuffer (Screen_putChar s c (Num x) (Num y) color style) =
           store_cell (s_screenBuffer s) (Num ((y * s_w s + x) * 4))
             (num_add c (num_mul (Num glyphCount) style)) (s_tileColumns s) color"
  using assms by (simp add: Screen_putChar_def Let_def toInt32_id clamp_Num)

lemma cell_in_tile_map:
  assumes "0 \<le> x" and "x < w" and "0 \<le> y" and "y < h"
  shows "0 \<le> (y * w + x) * 4 \<and> (y * w + x) * 4 + 3 < w * h * (4::int)"
proof -
  have "y * w \<le> (h - 1) * w" using assms by (intro mult_right_mono) simp_all
  then have "y * w + x < h * w" using assms(2) by (simp add: algebra_simps)
  moreover have "0 \<le> y * w" using assms by (intro mult_nonneg_nonneg) simp_all
  ultimately show ?thesis using assms(1) by (simp add: algebra_simps)
qed

lemma tile_putChar_same:
  assumes "0 \<le> x" and "x < s_w s" and "0 \<le> y" and "y < s_h s"
    and "s_w s \<le> 2 ^ 31" and "s_h s \<le> 2 ^ 31"
    and "int (alen (s_screenBuffer s)) = s_w s * s_h s * 4"
  shows "tile (Screen_putChar s c (Num x) (Num y) color style) x y =
           tile_bytes (num_add c (num_mul (Num glyphCount) style)) (s_tileColumns s) color"
proof -
  have r: "0 \<le> (y * s_w s + x) * 4" "(y * s_w s + x) * 4 + 3 < s_w s * s_h s * 4"
    using cell_in_tile_map [OF assms(1-4)] by simp_all
  then have "nat ((y * s_w s + x) * 4 + 3) < alen (s_screenBuffer s)"
    using assms(7) by linarith
  then show ?thesis
    using assms r(1)
    by (simp only: tile_def putChar_fields putChar_buffer [of x s y] store_cell_reads)
qed

lemma tile_putChar_other:
  assumes "0 \<le> x0" and "x0 < x" and "x < s_w s" and "0 \<le> y" and "y < s_h s"
    and "s_w s \<le> 2 ^ 31" and "s_h s \<le> 2 ^ 31"
  shows "tile (Screen_putChar s c (Num x) (Num y) color style) x0 y = tile s x0 y"
proof -
  have lt: "(y * s_w s + x0) * 4 + j < (y * s_w s + x) * 4" if "j \<le> 3" for j
    using assms(2) that by simp
  have "0 \<le> x" "x < 2 ^ 31" "y \<le> s_h s" "y < 2 ^ 31"
    using assms by linarith+
  then have buf: "s_screenBuffer (Screen_putChar s c (Num x) (Num y) color style) =
      store_cell (s_screenBuffer s) (Num ((y * s_w s + x) * 4))
        (num_add c (num_mul (Num glyphCount) style)) (s_tileColumns s) color"
    using assms by (simp add: Screen_putChar_def Let_def toInt32_def clamp_Num)
  show ?thesis
    unfolding tile_def putChar_fields buf
  proof (rule map_cong [OF refl])
    fix j :: int
    assume "j \<in> set [0, 1, 2, 3]"
    then have "j \<le> 3" by auto
    then show "ta_get (store_cell (s_screenBuffer s) (Num ((y * s_w s + x) * 4))
          (num_add c (num_mul (Num glyphCount) style)) (s_tileColumns s) color)
          (Num ((y * s_w s + x0) * 4 + j)) =
        ta_get (s_screenBuffer s) (Num ((y * s_w s + x0) * 4 + j))"
      by (intro store_cell_other disjI1 lt)
  qed
qed

lemma row_fields [simp]:
  "s_w (writeBuffer_row scr buffer s sx dx dy y xs) = s_w scr"
  "s_h (writeBuffer_row scr buffer s sx dx dy y xs) = s_h scr"
  by (induction xs arbitrary: scr) (simp_all add: Let_def)

lemma row_keeps_tile:
  assumes "0 \<le> dx" and "0 \<le> dy" and "dy < s_h scr"
    and "s_w scr \<le> 2 ^ 31" and "s_h scr \<le> 2 ^ 31"
    and "\<forall>x\<in>set xs. 1 \<le> x \<and> dx + x < s_w scr"
  shows "tile (writeBuffer_row scr buffer s sx (Num dx) (Num dy) 0 xs) dx dy = tile scr dx dy"
  using assms
proof (induction xs arbitrary: scr)
  case Nil
  show ?case by simp
next
  case (Cons x xs)
  let ?scr = "Screen_putChar scr (ta_get (b_buffer buffer) (num_add (num_add s sx) (Num x)))
      (Num (dx + x)) (Num dy) (ta_get (b_colors buffer) (num_add (num_add s sx) (Num x)))
      (ta_get (b_styles buffer) (num_add (num_add s sx) (Num x)))"
  have x: "1 \<le> x" "dx + x < s_w scr" using Cons.prems(6) by simp_all
  have "tile (writeBuffer_row ?scr buffer s sx (Num dx) (Num dy) 0 xs) dx dy = tile ?scr dx dy"
    using Cons.prems by (intro Cons.IH) simp_all
  also have "tile ?scr dx dy = tile scr dx dy"
    using Cons.prems(1-5) x by (intro tile_putChar_other) simp_all
  finally show ?case by (simp add: Let_def)
qed

lemma tile_invalidate [simp]: "tile (Screen_invalidate s) x y = tile s x y"
  by (simp add: tile_def Screen_invalidate_def)

lemma last_row_copy:
  assumes h: "1 \<le> b_h buffer" "b_h buffer - 1 \<le> toInt32 sy"
    and sz: "1 \<le> toInt32 (default_1024 sw)" "1 \<le> toInt32 (default_1024 sh)"
    and cur: "s_x scr = Num dx" "s_y scr = Num dy"
    and pos: "0 \<le> dx" "dx < s_w scr" "0 \<le> dy" "dy < s_h scr"
    and scr: "s_w scr \<le> 2 ^ 31" "s_h scr \<le> 2 ^ 31"
    and len: "int (alen (s_screenBuffer scr)) = s_w scr * s_h scr * 4"
    and st: "ta_get (b_starts buffer) (Num (b_h buffer - 1)) = Num s" "Buffer_w buffer = Num wb"
    and p: "p = s + max 0 (min (wb - 1) (toInt32 sx))" "p < b_i buffer"
  shows "tile (Screen_writeBuffer scr buffer sx sy sw sh) dx dy =
           tile_bytes
             (num_add (ta_get (b_buffer buffer) (Num p))
                (num_mul (Num glyphCount) (ta_get (b_styles buffer) (Num p))))
             (s_tileColumns scr) (ta_get (b_colors buffer) (Num p))"
proof -
  define sxc where "sxc = max 0 (min (wb - 1) (toInt32 sx))"
  define sw1 where "sw1 = max 0 (min (wb - sxc) (toInt32 (default_1024 sw)))"
  define l where "l = min (b_i buffer - s - sxc) (min sw1 (s_w scr - dx))"
  have rl: "rowLength buffer = Num (b_i buffer - s)"
    by (simp add: rowLength_def st(1))
  have "b_i buffer - s \<le> wb"
    using st(2) by (cases "b_previousMaxLineWidth buffer") (auto simp add: Buffer_w_def rl)
  then have room: "1 \<le> wb - sxc" using p by (simp add: sxc_def)
  then have sw1: "1 \<le> sw1" using sz(1) by (simp add: sw1_def)
  have l: "1 \<le> l" "l \<le> s_w scr - dx"
    using sw1 pos(2) p by (simp_all add: l_def sxc_def)
  have sy1: "max 0 (min (b_h buffer - 1) (toInt32 sy)) = b_h buffer - 1"
    using h by simp
  have sh1: "min (max 0 (min 1 (toInt32 (default_1024 sh)))) (s_h scr - dy) = 1"
    using sz(2) pos(4) by simp
  have copy: "Screen_writeBuffer scr buffer sx sy sw sh =
      Screen_invalidate
        (writeBuffer_row scr buffer (Num s) (Num sxc) (Num dx) (Num dy) 0 [0..l - 1])"
    by (simp add: Screen_writeBuffer_def Let_def clamp_Num cur st sy1 sh1 loop_range_def
          sxc_def [symmetric] sw1_def [symmetric] l_def [symmetric])
  have range: "[0..l - 1] = 0 # [1..l - 1]"
    using l(1) by (simp add: upto_rec1)
  let ?scr = "Screen_putChar scr (ta_get (b_buffer buffer) (Num p)) (Num dx) (Num dy)
      (ta_get (b_colors buffer) (Num p)) (ta_get (b_styles buffer) (Num p))"
  have first: "writeBuffer_row scr buffer (Num s) (Num sxc) (Num dx) (Num dy) 0 [0..l - 1] =
      writeBuffer_row ?scr buffer (Num s) (Num sxc) (Num dx) (Num dy) 0 [1..l - 1]"
    unfolding range using p by (simp add: Let_def sxc_def)
  have "tile (writeBuffer_row ?scr buffer (Num s) (Num sxc) (Num dx) (Num dy) 0 [1..l - 1]) dx dy =
      tile ?scr dx dy"
    using pos scr l(2) by (intro row_keeps_tile) auto
  also have "tile ?scr dx dy =
      tile_bytes
        (num_add (ta_get (b_buffer buffer) (Num p))
           (num_mul (Num glyphCount) (ta_get (b_styles buffer) (Num p))))
        (s_tileColumns scr) (ta_get (b_colors buffer) (Num p))"
    using pos scr len by (simp add: tile_putChar_same)
  finally show ?thesis
    by (simp add: copy first)
qed


lemma four_rows:
  "b_h (Buffer_writeString (Buffer_new None) [97, 10, 98, 10, 99, 10, 100]) = 4"
  "b_i (Buffer_writeString (Buffer_new None) [97, 10, 98, 10, 99, 10, 100]) = 4"
  "Buffer_w (Buffer_writeString (Buffer_new None) [97, 10, 98, 10, 99, 10, 100]) = Num 1"
  "ta_get (b_starts (Buffer_writeString (Buffer_new None) [97, 10, 98, 10, 99, 10, 100])) (Num 3) =
     Num 3"
  "ta_get (b_buffer (Buffer_writeString (Buffer_new None) [97, 10, 98, 10, 99, 10, 100])) (Num 3) =
     Num 100"
  "ta_get (b_colors (Buffer_writeString (Buffer_new None) [97, 10, 98, 10, 99, 10, 100])) (Num 3) =
     Num 65535"
  "ta_get (b_styles (Buffer_writeString (Buffer_new None) [97, 10, 98, 10, 99, 10, 100])) (Num 3) =
     Num 0"
  by (simp_all add: Buffer_w_def buffer_eval append_cell_cells)

lemma glyph_d: "tile_bytes (Num 100) 16 (Num 65535) = [Num 4, Num 6, Num 255, Num 255]"
  by (simp add: tile_bytes_def to_cell_def toInt32_def shr8_def)

lemma blank_screen:
  "s_x (Screen_sized 4 4 16) = Num 0" "s_y (Screen_sized 4 4 16) = Num 0"
  "s_w (Screen_sized 4 4 16) = 4" "s_h (Screen_sized 4 4 16) = 4"
  "s_tileColumns (Screen_sized 4 4 16) = 16"
  "alen (s_screenBuffer (Screen_sized 4 4 16)) = 64"
  "tile (Screen_sized 4 4 16) 0 0 = [Num 0, Num 0, Num 0, Num 0]"
  by (simp_all add: Screen_sized_def tile_def ta_get_def)



end
